theory Spec2Isabelle
  imports Complex_Main "HOL-Library.Sublist"
begin

section \<open>Data model of \<open>flags.hpp\<close>\<close>

text \<open>
  The header \<open>src/flags.hpp\<close> (namespace \<open>flag\<close>) is embedded function by function.
  A \<open>std::string_view\<close> is a \<open>string\<close> (a list of bytes), a \<open>size_t\<close> index is a
  \<open>nat\<close>: every index the code computes is bounded by the length of a string or of
  the argument vector, so no 64-bit wrap-around can occur. The one subtraction,
  \<open>sep_start - prefix_end\<close>, never truncates (lemma \<open>parse_flag_ge_offset\<close>).

  A \<open>Flag*\<close> held by the lookup table is the position of the flag in the
  \<open>std::list\<close> that owns it: the list only grows at its end and never removes a
  node, so a position identifies one flag object for the life of the parser.

  An out-of-range \<open>operator[]\<close> on a \<open>std::string_view\<close> is undefined behaviour in
  C++. The functions that can perform one return \<open>None\<close> in that case.
\<close>

datatype Type = String | Number | Bool

record Result =
  ok :: bool
  flag_id :: string
  error :: string

text \<open>
  A \<open>double\<close> is represented by the exact rational value of the literal it was read
  from, an infinity with its sign (\<open>True\<close> for the negative one), or a NaN. Rounding
  to binary64 is not modelled: the properties below only concern whether a number is
  stored, not its bits.
\<close>

datatype double = Finite rat | Infinity bool | NaN

datatype FlagData = DString string | DDouble double | DBool bool

text \<open>
  The field \<open>fn\<close> of \<open>Flag\<close> (the callback run by \<open>Parser::call\<close>) is left out:
  \<open>parse\<close> never reads or writes it.
\<close>

record Flag =
  name :: string
  description :: string
  data :: FlagData
  type :: Type
  aliases :: "string list"
  triggered :: bool

type_synonym FlagTable = "string \<rightharpoonup> nat"

type_synonym Flags = "Flag list"

record Options =
  flag_prefix :: string
  separator :: string
  strict_flags :: bool

record Parser =
  m_flags :: Flags
  m_table :: FlagTable
  m_options :: Options
  m_args :: "string list"
  m_flagless :: "string list"

definition default_Options :: Options where
  "default_Options = \<lparr>flag_prefix = ''-'', separator = ''='', strict_flags = True\<rparr>"

definition new_Parser :: "string list \<Rightarrow> Options \<Rightarrow> Parser" where
  "new_Parser args options =
     \<lparr>m_flags = [], m_table = Map.empty, m_options = options, m_args = args, m_flagless = []\<rparr>"

section \<open>Registry: \<open>Parser::set\<close> and \<open>Parser::get\<close>\<close>

text \<open>
  \<open>std::unordered_map::emplace\<close> inserts only when the key is absent; an existing
  entry is kept.
\<close>

definition emplace :: "FlagTable \<Rightarrow> string \<Rightarrow> nat \<Rightarrow> FlagTable" where
  "emplace t k v = (case t k of None \<Rightarrow> t(k \<mapsto> v) | Some _ \<Rightarrow> t)"

definition set_flag :: "Flag \<Rightarrow> Parser \<Rightarrow> Parser" where
  "set_flag flag p =
     (let f = length (m_flags p);
          flags' = m_flags p @ [flag];
          table' = emplace (m_table p) (name flag) f;
          table'' = fold (\<lambda>alias t. emplace t alias f) (aliases flag) table'
      in p\<lparr>m_flags := flags', m_table := table''\<rparr>)"

definition get :: "Parser \<Rightarrow> string \<Rightarrow> nat option" where
  "get p key = m_table p key"

text \<open>
  A client registers its flags by chaining calls, \<open>parser.set(f1).set(f2)\<close>:
  \<open>register\<close> is that chain. \<open>keys\<close> are the texts a flag is indexed under.
\<close>

definition register :: "Flag list \<Rightarrow> Parser \<Rightarrow> Parser" where
  "register fs p = fold set_flag fs p"

definition keys :: "Flag \<Rightarrow> string set" where
  "keys f = insert (name f) (set (aliases f))"

section \<open>Tokenizer: \<open>Parser::is_flag\<close> and \<open>Parser::parse_flag\<close>\<close>

text \<open>
  The loop of \<open>is_flag\<close> runs only after the test \<open>str.size() <= size\<close> has
  failed, so \<open>str[i]\<close> and \<open>flag_prefix[i]\<close> are read in range.
\<close>

function is_flag_loop :: "string \<Rightarrow> string \<Rightarrow> nat \<Rightarrow> nat \<Rightarrow> bool" where
  "is_flag_loop str pre i sz =
     (if i < sz then
        (if str ! i \<noteq> pre ! i then False else is_flag_loop str pre (i + 1) sz)
      else True)"
  by pat_completeness auto
termination
  by (relation "measure (\<lambda>(str, pre, i, sz). sz - i)") auto

declare is_flag_loop.simps [simp del]

definition is_flag :: "Options \<Rightarrow> string \<Rightarrow> bool" where
  "is_flag opts str =
     (let sz = length (flag_prefix opts)
      in if length str \<le> sz then False else is_flag_loop str (flag_prefix opts) 0 sz)"

text \<open>
  The inner loop of \<open>parse_flag\<close>: \<open>for (j = i; j < sep.size(); j++, i++)\<close>. It
  returns the final \<open>i\<close>, \<open>j\<close> and \<open>found\<close>, or \<open>None\<close> when \<open>str[i]\<close> is read
  past the end of \<open>str\<close>.
\<close>

function parse_flag_inner ::
  "string \<Rightarrow> string \<Rightarrow> nat \<Rightarrow> nat \<Rightarrow> bool \<Rightarrow> (nat \<times> nat \<times> bool) option" where
  "parse_flag_inner str sep i j found =
     (if j < length sep then
        (if i < length str then
           parse_flag_inner str sep (i + 1) (j + 1) (if str ! i \<noteq> sep ! j then False else found)
         else None)
      else Some (i, j, found))"
  by pat_completeness auto
termination
  by (relation "measure (\<lambda>(str, sep, i, j, found). length sep - j)") auto

declare parse_flag_inner.simps [simp del]

lemma parse_flag_inner_mono:
  "parse_flag_inner str sep i j found = Some (i', j', found') \<Longrightarrow> i \<le> i'"
proof (induction str sep i j found rule: parse_flag_inner.induct)
  case (1 str sep i j found)
  show ?case
  proof (cases "j < length sep \<and> i < length str")
    case True
    with "1.prems" have
      "parse_flag_inner str sep (i + 1) (j + 1) (if str ! i \<noteq> sep ! j then False else found)
         = Some (i', j', found')"
      by (simp add: parse_flag_inner.simps [of str sep i j found])
    with "1.IH" True have "i + 1 \<le> i'" by blast
    then show ?thesis by simp
  next
    case False
    with "1.prems" show ?thesis
      by (simp add: parse_flag_inner.simps [of str sep i j found] split: if_splits)
  qed
qed

text \<open>
  The outer loop of \<open>parse_flag\<close>, from index \<open>i\<close>. \<open>sep[0]\<close> on an empty
  separator is an out-of-range read.
\<close>

function parse_flag_loop :: "string \<Rightarrow> string \<Rightarrow> nat \<Rightarrow> (nat \<times> bool) option" where
  "parse_flag_loop str sep i =
     (if i < length str then
        (if sep = [] then None
         else if str ! i = sep ! 0 then
           (case parse_flag_inner str sep i i True of
              None \<Rightarrow> None
            | Some (i', j, found) \<Rightarrow>
                if found then Some (j, True) else parse_flag_loop str sep (i' + 1))
         else parse_flag_loop str sep (i + 1))
      else Some (length str, False))"
  by pat_completeness auto
termination
proof (relation "measure (\<lambda>(str, sep, i). length str - i)")
  show "wf (measure (\<lambda>(str, sep, i). length str - i))" by simp
next
  fix str sep :: string and i :: nat and x2 :: "nat \<times> nat \<times> bool" and x1 :: nat
    and y :: "nat \<times> bool" and x1a :: nat and x2a :: bool
  assume "i < length str" and "parse_flag_inner str sep i i True = Some x2"
    and "(x1, y) = x2" and "(x1a, x2a) = y"
  then have "parse_flag_inner str sep i i True = Some (x1, x1a, x2a)" by simp
  then have "i \<le> x1" by (rule parse_flag_inner_mono)
  with \<open>i < length str\<close>
  show "((str, sep, x1 + 1), (str, sep, i)) \<in> measure (\<lambda>(str, sep, i). length str - i)"
    by simp
next
  fix str sep :: string and i :: nat
  assume "i < length str"
  then show "((str, sep, i + 1), (str, sep, i)) \<in> measure (\<lambda>(str, sep, i). length str - i)"
    by simp
qed

declare parse_flag_loop.simps [simp del]

definition parse_flag :: "Options \<Rightarrow> string \<Rightarrow> nat \<Rightarrow> (nat \<times> bool) option" where
  "parse_flag opts str offset = parse_flag_loop str (separator opts) offset"

text \<open>
  \<open>std::string_view::substr(pos, count)\<close> throws when \<open>pos > size()\<close>, which the
  callers below exclude, and otherwise clips \<open>count\<close> to the rest of the string.
\<close>

definition substr :: "string \<Rightarrow> nat \<Rightarrow> nat \<Rightarrow> string" where
  "substr s pos count = take count (drop pos s)"

section \<open>Coercion: \<open>std::from_chars\<close> and \<open>Parser::set_value\<close>\<close>

text \<open>
  \<open>std::from_chars\<close> for \<open>double\<close> belongs to the C++ standard library, not to the
  header. It is modelled after its specification (C++17 [charconv.from.chars], default
  format \<open>chars_format::general\<close>): no leading whitespace is skipped, a leading
  \<open>-\<close> is the only sign accepted before the number, and the longest leading part of
  the input that matches the pattern is read. The pattern is a nonempty digit sequence
  with an optional radix point, followed by an optional exponent (\<open>e\<close> or \<open>E\<close>,
  an optional sign, at least one digit), or \<open>inf\<close>, \<open>infinity\<close>, \<open>nan\<close> or
  \<open>nan(...)\<close> in any letter case. The result holds \<open>ptr\<close>, here the number of
  characters read, and \<open>ec\<close>: \<open>invalid_argument\<close> when nothing matches,
  \<open>result_out_of_range\<close> when the literal's value is outside the range of a binary64
  number (it would round to an infinity or, being nonzero, to zero), and no error
  otherwise. \<open>value\<close> is left unmodified on error.
\<close>

datatype errc = errc_none | invalid_argument | result_out_of_range

record from_chars_result =
  ptr :: nat
  ec :: errc

definition is_digit :: "char \<Rightarrow> bool" where
  "is_digit c = (c \<in> set ''0123456789'')"

definition digit_value :: "char \<Rightarrow> nat" where
  "digit_value c = of_char c - of_char CHR ''0''"

definition digits_value :: "string \<Rightarrow> nat" where
  "digits_value ds = foldl (\<lambda>n c. 10 * n + digit_value c) 0 ds"

definition to_lower :: "char \<Rightarrow> char" where
  "to_lower c = (if c \<in> set ''ABCDEFGHIJKLMNOPQRSTUVWXYZ'' then char_of (of_char c + (32::nat)) else c)"

definition starts_with_ci :: "string \<Rightarrow> string \<Rightarrow> bool" where
  "starts_with_ci s pat = (length pat \<le> length s \<and> map to_lower (take (length pat) s) = pat)"

definition is_nchar :: "char \<Rightarrow> bool" where
  "is_nchar c = (is_digit c \<or> c = CHR ''_'' \<or> to_lower c \<in> set ''abcdefghijklmnopqrstuvwxyz'')"

text \<open>The length of a \<open>(n-char-sequence)\<close> after \<open>nan\<close>, or 0 when there is none.\<close>

definition nan_payload :: "string \<Rightarrow> nat" where
  "nan_payload r =
     (case r of
        [] \<Rightarrow> 0
      | c # t \<Rightarrow>
          if c = CHR ''('' then
            (case dropWhile is_nchar t of
               [] \<Rightarrow> 0
             | d # _ \<Rightarrow> if d = CHR '')'' then length (takeWhile is_nchar t) + 2 else 0)
          else 0)"

text \<open>The length of the exponent part at the head of \<open>r\<close> and its value; \<open>(0, 0)\<close> when there is none.\<close>

definition exponent_part :: "string \<Rightarrow> nat \<times> int" where
  "exponent_part r =
     (case r of
        [] \<Rightarrow> (0, 0)
      | c # t \<Rightarrow>
          if c = CHR ''e'' \<or> c = CHR ''E'' then
            (let signed = (t \<noteq> [] \<and> (hd t = CHR ''+'' \<or> hd t = CHR ''-''));
                 minus = (t \<noteq> [] \<and> hd t = CHR ''-'');
                 ds = takeWhile is_digit (if signed then tl t else t)
             in if ds = [] then (0, 0)
                else (1 + (if signed then 1 else 0) + length ds,
                      if minus then - int (digits_value ds) else int (digits_value ds)))
          else (0, 0))"

text \<open>
  Whether \<open>m * 10 ^ e\<close> lies in the range of a binary64 number: it is zero, or it is
  below the midpoint between the largest finite number and \<open>2 ^ 1024\<close> and above half
  of the smallest subnormal number \<open>2 ^ -1074\<close>.
\<close>

definition representable :: "nat \<Rightarrow> int \<Rightarrow> bool" where
  "representable m e =
     (m = 0 \<or>
      (if 0 \<le> e then int m * 10 ^ nat e < 2 ^ 1024 - 2 ^ 970
       else int m < (2 ^ 1024 - 2 ^ 970) * 10 ^ nat (- e) \<and> 10 ^ nat (- e) < int m * 2 ^ 1075))"

definition decimal :: "nat \<Rightarrow> int \<Rightarrow> rat" where
  "decimal m e = (if 0 \<le> e then of_nat m * 10 ^ nat e else of_nat m / 10 ^ nat (- e))"

definition from_chars :: "string \<Rightarrow> double \<Rightarrow> from_chars_result \<times> double" where
  "from_chars s val =
     (let neg = (s \<noteq> [] \<and> hd s = CHR ''-'');
          n0 = (if neg then 1 else 0);
          r = drop n0 s
      in if starts_with_ci r ''inf'' then
           (\<lparr>ptr = n0 + (if starts_with_ci r ''infinity'' then 8 else 3), ec = errc_none\<rparr>,
            Infinity neg)
         else if starts_with_ci r ''nan'' then
           (\<lparr>ptr = n0 + 3 + nan_payload (drop 3 r), ec = errc_none\<rparr>, NaN)
         else
           (let ip = takeWhile is_digit r;
                r1 = dropWhile is_digit r;
                dot = (r1 \<noteq> [] \<and> hd r1 = CHR ''.'');
                fp = (if dot then takeWhile is_digit (tl r1) else []);
                r2 = (if dot then dropWhile is_digit (tl r1) else r1);
                n2 = n0 + length ip + (if dot then 1 + length fp else 0)
            in if ip = [] \<and> fp = [] then (\<lparr>ptr = 0, ec = invalid_argument\<rparr>, val)
               else
                 (let (elen, ex) = exponent_part r2;
                      m = digits_value (ip @ fp);
                      e = ex - int (length fp)
                  in if representable m e then
                       (\<lparr>ptr = n2 + elen, ec = errc_none\<rparr>,
                        Finite (if neg then - decimal m e else decimal m e))
                     else (\<lparr>ptr = n2 + elen, ec = result_out_of_range\<rparr>, val))))"

text \<open>
  The whitespace characters of the C locale (\<open>isspace\<close>): space, tab, line feed,
  vertical tab, form feed, carriage return.
\<close>

definition is_space :: "char \<Rightarrow> bool" where
  "is_space c = (c \<in> {CHR '' '', CHR 0x09, CHR 0x0A, CHR 0x0B, CHR 0x0C, CHR 0x0D})"

text \<open>
  \<open>set_value\<close> returns its \<open>bool\<close> and the flag as the call leaves it. The \<open>switch\<close>
  has no case for \<open>Bool\<close>: control falls to the statements after it. Only \<open>ec\<close> of
  the result of \<open>from_chars\<close> is inspected.
\<close>

definition set_value :: "string \<Rightarrow> Flag \<Rightarrow> bool \<times> Flag" where
  "set_value str flag =
     (case type flag of
        String \<Rightarrow> (True, flag\<lparr>data := DString str, triggered := True\<rparr>)
      | Number \<Rightarrow>
          (let (result, val) = from_chars str (Finite 0)
           in if ec result \<noteq> errc_none then (False, flag)
              else (True, flag\<lparr>data := DDouble val, triggered := True\<rparr>))
      | Bool \<Rightarrow> (True, flag\<lparr>triggered := True\<rparr>))"

section \<open>Parse engine: \<open>Parser::parse\<close>\<close>

text \<open>
  The loop \<open>for (size_t a = 0; a < m_args.size(); a++)\<close>, entered at index \<open>a\<close>.
  It returns the \<open>Result\<close> together with the parser as the call leaves it. The flag
  that \<open>set_value\<close> received by reference is written back before its \<open>bool\<close> is
  tested. \<open>None\<close> stands for undefined behaviour: an out-of-range read in
  \<open>parse_flag\<close>, or a table entry that points to no flag of \<open>m_flags\<close> (which
  \<open>set\<close> never creates).
\<close>

function parse_loop :: "Parser \<Rightarrow> nat \<Rightarrow> (Result \<times> Parser) option" where
  "parse_loop p a =
     (if a < length (m_args p) then
        (let arg = m_args p ! a in
         if \<not> is_flag (m_options p) arg then
           parse_loop (p\<lparr>m_flagless := m_flagless p @ [arg]\<rparr>) (a + 1)
         else
           (let prefix_end = length (flag_prefix (m_options p)) in
            case parse_flag (m_options p) arg prefix_end of
              None \<Rightarrow> None
            | Some (sep_start, found_sep) \<Rightarrow>
                (let id = substr arg prefix_end (sep_start - prefix_end) in
                 case get p id of
                   None \<Rightarrow>
                     if strict_flags (m_options p) then
                       Some (\<lparr>ok = False, flag_id = id, error = ''invalid flag id used''\<rparr>, p)
                     else parse_loop p (a + 1)
                 | Some flag \<Rightarrow>
                     if \<not> flag < length (m_flags p) then None
                     else if type (m_flags p ! flag) = Bool then
                       parse_loop
                         (p\<lparr>m_flags := (m_flags p)
                              [flag := (m_flags p ! flag)\<lparr>data := DBool True, triggered := True\<rparr>]\<rparr>)
                         (a + 1)
                     else
                       (let fail_result =
                              \<lparr>ok = False, flag_id = id, error = ''could not set flag value''\<rparr>
                        in if found_sep \<and> sep_start + 1 < length arg then
                             (let value_str = drop (sep_start + 1) arg;
                                  (ok, flag') = set_value value_str (m_flags p ! flag);
                                  p' = p\<lparr>m_flags := (m_flags p)[flag := flag']\<rparr>
                              in if \<not> ok then Some (fail_result, p') else parse_loop p' (a + 1))
                           else if a + 1 < length (m_args p) then
                             (let value_str = m_args p ! (a + 1);
                                  (ok, flag') = set_value value_str (m_flags p ! flag);
                                  p' = p\<lparr>m_flags := (m_flags p)[flag := flag']\<rparr>
                              in if \<not> ok then Some (fail_result, p') else parse_loop p' (a + 2))
                           else Some (fail_result, p)))))
      else Some (\<lparr>ok = True, flag_id = [], error = []\<rparr>, p))"
  by pat_completeness auto
termination
  by (relation "measure (\<lambda>(p, a). length (m_args p) - a)") auto

declare parse_loop.simps [simp del]

definition parse :: "Parser \<Rightarrow> (Result \<times> Parser) option" where
  "parse p = parse_loop p 0"

section \<open>Which tokens the loop reaches\<close>

text \<open>
  \<open>next_index p a\<close> is the index at which the loop of \<open>parse\<close> goes on after the
  token at index \<open>a\<close>, or \<open>None\<close> when the loop ends at that token (a failure, or
  undefined behaviour). It reads the options, the arguments, the table and the types of
  the flags, none of which \<open>parse\<close> changes, and never the positional list.
  \<open>reached p a\<close> lists the indices the loop takes as its current token when entered
  at \<open>a\<close>.
\<close>

definition next_index :: "Parser \<Rightarrow> nat \<Rightarrow> nat option" where
  "next_index p a =
     (let arg = m_args p ! a; prefix_end = length (flag_prefix (m_options p)) in
      if \<not> is_flag (m_options p) arg then Some (a + 1)
      else
        case parse_flag (m_options p) arg prefix_end of
          None \<Rightarrow> None
        | Some (sep_start, found_sep) \<Rightarrow>
            (case get p (substr arg prefix_end (sep_start - prefix_end)) of
               None \<Rightarrow> if strict_flags (m_options p) then None else Some (a + 1)
             | Some flag \<Rightarrow>
                 if \<not> flag < length (m_flags p) then None
                 else if type (m_flags p ! flag) = Bool then Some (a + 1)
                 else if found_sep \<and> sep_start + 1 < length arg then
                   (if fst (set_value (drop (sep_start + 1) arg) (m_flags p ! flag))
                    then Some (a + 1) else None)
                 else if a + 1 < length (m_args p) then
                   (if fst (set_value (m_args p ! (a + 1)) (m_flags p ! flag))
                    then Some (a + 2) else None)
                 else None))"

lemma next_index_gt: "next_index p a = Some b \<Longrightarrow> a < b"
  by (auto simp: next_index_def Let_def split: if_splits option.splits prod.splits)

function reached :: "Parser \<Rightarrow> nat \<Rightarrow> nat list" where
  "reached p a =
     (if a < length (m_args p) then
        a # (case next_index p a of None \<Rightarrow> [] | Some b \<Rightarrow> reached p b)
      else [])"
  by pat_completeness auto
termination
proof (relation "measure (\<lambda>(p, a). length (m_args p) - a)")
  show "wf (measure (\<lambda>(p, a). length (m_args p) - a))" by simp
next
  fix p :: Parser and a b :: nat
  assume "a < length (m_args p)" and "next_index p a = Some b"
  then show "((p, b), (p, a)) \<in> measure (\<lambda>(p, a). length (m_args p) - a)"
    using next_index_gt [of p a b] by simp
qed

declare reached.simps [simp del]

definition reached_positionals :: "Parser \<Rightarrow> nat \<Rightarrow> string list" where
  "reached_positionals p a =
     map (\<lambda>i. m_args p ! i) (filter (\<lambda>i. \<not> is_flag (m_options p) (m_args p ! i)) (reached p a))"

section \<open>A small parser to run the model on\<close>

text \<open>
  Three flags in the manner of the README: a string flag \<open>name\<close> with alias
  \<open>n\<close>, a number flag \<open>num\<close>, and a boolean flag \<open>verbose\<close> with alias \<open>v\<close>,
  registered in this order on a parser with prefix \<open>--\<close>.
\<close>

definition flag_name :: Flag where
  "flag_name = \<lparr>name = ''name'', description = ''this is a string'',
     data = DString ''nothing set'', type = String, aliases = [''n''], triggered = False\<rparr>"

definition flag_num :: Flag where
  "flag_num = \<lparr>name = ''num'', description = ''this flag is a number'',
     data = DDouble (Finite 10), type = Number, aliases = [], triggered = False\<rparr>"

definition flag_verbose :: Flag where
  "flag_verbose = \<lparr>name = ''verbose'', description = ''this is a cool bool flag'',
     data = DBool False, type = Bool, aliases = [''v''], triggered = False\<rparr>"

definition demo_flags :: "Flag list" where
  "demo_flags = [flag_name, flag_num, flag_verbose]"

definition demo_options :: "string \<Rightarrow> bool \<Rightarrow> Options" where
  "demo_options sep strict = \<lparr>flag_prefix = ''--'', separator = sep, strict_flags = strict\<rparr>"

definition demo_parser :: "string list \<Rightarrow> string \<Rightarrow> bool \<Rightarrow> Parser" where
  "demo_parser args sep strict = register demo_flags (new_Parser args (demo_options sep strict))"

text \<open>A parser whose only flag is the boolean one.\<close>

definition switch_parser :: "string list \<Rightarrow> Parser" where
  "switch_parser args = register [flag_verbose] (new_Parser args (demo_options ''='' True))"

section \<open>Properties of the tokenizer\<close>

lemma is_flag_loop_iff:
  "is_flag_loop str pre i sz \<longleftrightarrow> (\<forall>k. i \<le> k \<and> k < sz \<longrightarrow> str ! k = pre ! k)"
proof (induction str pre i sz rule: is_flag_loop.induct)
  case (1 str pre i sz)
  show ?case
  proof (cases "i < sz")
    case False
    then show ?thesis by (auto simp: is_flag_loop.simps [of str pre i sz])
  next
    case True
    show ?thesis
    proof (cases "str ! i = pre ! i")
      case False
      with True show ?thesis
        by (auto simp: is_flag_loop.simps [of str pre i sz])
    next
      case eq: True
      with True "1.IH" have
        "is_flag_loop str pre i sz \<longleftrightarrow> (\<forall>k. i + 1 \<le> k \<and> k < sz \<longrightarrow> str ! k = pre ! k)"
        by (simp add: is_flag_loop.simps [of str pre i sz])
      also have "\<dots> \<longleftrightarrow> (\<forall>k. i \<le> k \<and> k < sz \<longrightarrow> str ! k = pre ! k)"
      proof (intro iffI allI impI)
        fix k assume h: "\<forall>k. i + 1 \<le> k \<and> k < sz \<longrightarrow> str ! k = pre ! k" and k: "i \<le> k \<and> k < sz"
        show "str ! k = pre ! k"
        proof (cases "k = i")
          case True with eq show ?thesis by simp
        next
          case False with k have "i + 1 \<le> k \<and> k < sz" by simp
          with h show ?thesis by blast
        qed
      next
        fix k assume "\<forall>k. i \<le> k \<and> k < sz \<longrightarrow> str ! k = pre ! k" and "i + 1 \<le> k \<and> k < sz"
        then show "str ! k = pre ! k" by simp
      qed
      finally show ?thesis .
    qed
  qed
qed

lemma is_flag_iff:
  "is_flag opts str \<longleftrightarrow>
     length (flag_prefix opts) < length str \<and> take (length (flag_prefix opts)) str = flag_prefix opts"
proof (cases "length (flag_prefix opts) < length str")
  case False
  then show ?thesis by (simp add: is_flag_def)
next
  case True
  then have "is_flag opts str \<longleftrightarrow>
      (\<forall>k. k < length (flag_prefix opts) \<longrightarrow> str ! k = flag_prefix opts ! k)"
    by (simp add: is_flag_def is_flag_loop_iff)
  also from True have "\<dots> \<longleftrightarrow> take (length (flag_prefix opts)) str = flag_prefix opts"
    by (auto simp: list_eq_iff_nth_eq)
  finally show ?thesis using True by simp
qed

lemma parse_flag_loop_end: "length str \<le> i \<Longrightarrow> parse_flag_loop str sep i = Some (length str, False)"
  by (simp add: parse_flag_loop.simps [of str sep i])

lemma parse_flag_inner_done:
  "length sep \<le> j \<Longrightarrow> parse_flag_inner str sep i j found = Some (i, j, found)"
  by (simp add: parse_flag_inner.simps [of str sep i j found])

lemma parse_flag_loop_hit:
  "sep \<noteq> [] \<Longrightarrow> length sep \<le> i \<Longrightarrow> i < length str \<Longrightarrow> str ! i = sep ! 0
     \<Longrightarrow> parse_flag_loop str sep i = Some (i, True)"
  by (simp add: parse_flag_loop.simps [of str sep i] parse_flag_inner_done)

lemma parse_flag_loop_miss:
  "sep \<noteq> [] \<Longrightarrow> i < length str \<Longrightarrow> str ! i \<noteq> sep ! 0
     \<Longrightarrow> parse_flag_loop str sep i = parse_flag_loop str sep (i + 1)"
  by (simp add: parse_flag_loop.simps [of str sep i])

lemma parse_flag_loop_skip:
  "sep \<noteq> [] \<Longrightarrow> i + n \<le> length str \<Longrightarrow> \<forall>k. i \<le> k \<and> k < i + n \<longrightarrow> str ! k \<noteq> sep ! 0
     \<Longrightarrow> parse_flag_loop str sep i = parse_flag_loop str sep (i + n)"
proof (induction n arbitrary: i)
  case 0
  then show ?case by simp
next
  case (Suc n)
  from Suc.prems have "parse_flag_loop str sep i = parse_flag_loop str sep (i + 1)"
    by (intro parse_flag_loop_miss) auto
  also from Suc.prems have "\<dots> = parse_flag_loop str sep (i + 1 + n)"
    by (intro Suc.IH) auto
  finally show ?case by simp
qed

lemma parse_flag_inner_j:
  "parse_flag_inner str sep i j found = Some (i', j', found') \<Longrightarrow> j \<le> j' \<and> i' - i = j' - j"
proof (induction str sep i j found rule: parse_flag_inner.induct)
  case (1 str sep i j found)
  show ?case
  proof (cases "j < length sep \<and> i < length str")
    case True
    with "1.prems" have
      "parse_flag_inner str sep (i + 1) (j + 1) (if str ! i \<noteq> sep ! j then False else found)
         = Some (i', j', found')"
      by (simp add: parse_flag_inner.simps [of str sep i j found])
    with "1.IH" True have "j + 1 \<le> j' \<and> i' - (i + 1) = j' - (j + 1)" by blast
    moreover from \<open>parse_flag_inner str sep (i + 1) (j + 1) _ = _\<close> have "i + 1 \<le> i'"
      by (rule parse_flag_inner_mono)
    ultimately show ?thesis by arith
  next
    case False
    with "1.prems" show ?thesis
      by (simp add: parse_flag_inner.simps [of str sep i j found] split: if_splits)
  qed
qed

lemma parse_flag_loop_ge:
  "parse_flag_loop str sep i = Some (s, f) \<Longrightarrow> i \<le> length str \<Longrightarrow> i \<le> s"
proof (induction str sep i rule: parse_flag_loop.induct)
  case (1 str sep i)
  show ?case
  proof (cases "i < length str")
    case False
    with "1.prems" show ?thesis by (simp add: parse_flag_loop.simps [of str sep i])
  next
    case lt: True
    show ?thesis
    proof (cases "str ! i = sep ! 0")
      case False
      with lt "1.prems" have ne: "sep \<noteq> []" and "parse_flag_loop str sep (i + 1) = Some (s, f)"
        by (auto simp: parse_flag_loop.simps [of str sep i] split: if_splits)
      with "1.IH"(2) [OF lt ne False] lt show ?thesis by simp
    next
      case True
      with lt "1.prems" have ne: "sep \<noteq> []"
        by (auto simp: parse_flag_loop.simps [of str sep i] split: if_splits)
      from lt True ne "1.prems" obtain i' j found where
        inner: "parse_flag_inner str sep i i True = Some (i', j, found)"
        by (auto simp: parse_flag_loop.simps [of str sep i] split: option.splits)
      from inner have ii: "i \<le> i'" by (rule parse_flag_inner_mono)
      from inner have jj: "i \<le> j" using parse_flag_inner_j by blast
      show ?thesis
      proof (cases found)
        case True
        with lt \<open>str ! i = sep ! 0\<close> ne inner "1.prems" show ?thesis
          using jj by (simp add: parse_flag_loop.simps [of str sep i])
      next
        case False
        with lt \<open>str ! i = sep ! 0\<close> ne inner "1.prems" have
          rec: "parse_flag_loop str sep (i' + 1) = Some (s, f)"
          by (simp add: parse_flag_loop.simps [of str sep i])
        show ?thesis
        proof (cases "i' + 1 \<le> length str")
          case True
          from "1.IH"(1) [OF lt ne \<open>str ! i = sep ! 0\<close> inner refl refl False rec True] ii
          show ?thesis by simp
        next
          case False
          with rec have "s = length str" using parse_flag_loop_end [of str "i' + 1" sep] by simp
          with lt show ?thesis by simp
        qed
      qed
    qed
  qed
qed


text \<open>
  The index returned by \<open>parse_flag\<close> is never below the offset it was given, so
  \<open>sep_start - prefix_end\<close> in \<open>parse\<close> does not wrap around.
\<close>

lemma parse_flag_ge_offset:
  "parse_flag opts str offset = Some (sep_start, found_sep) \<Longrightarrow> offset \<le> length str
     \<Longrightarrow> offset \<le> sep_start"
  unfolding parse_flag_def by (rule parse_flag_loop_ge)

section \<open>One iteration of the parse loop, case by case\<close>

lemma parse_loop_done:
  "length (m_args p) \<le> a \<Longrightarrow> parse_loop p a = Some (\<lparr>ok = True, flag_id = [], error = []\<rparr>, p)"
  by (simp add: parse_loop.simps [of p a])

lemma parse_loop_positional:
  "a < length (m_args p) \<Longrightarrow> \<not> is_flag (m_options p) (m_args p ! a)
     \<Longrightarrow> parse_loop p a = parse_loop (p\<lparr>m_flagless := m_flagless p @ [m_args p ! a]\<rparr>) (a + 1)"
  by (simp add: parse_loop.simps [of p a])

lemma parse_loop_unknown:
  assumes "a < length (m_args p)" and "is_flag (m_options p) (m_args p ! a)"
    and "parse_flag (m_options p) (m_args p ! a) (length (flag_prefix (m_options p))) = Some (sep_start, found_sep)"
    and "get p (substr (m_args p ! a) (length (flag_prefix (m_options p)))
            (sep_start - length (flag_prefix (m_options p)))) = None"
  shows "parse_loop p a =
     (if strict_flags (m_options p) then
        Some (\<lparr>ok = False,
               flag_id = substr (m_args p ! a) (length (flag_prefix (m_options p)))
                           (sep_start - length (flag_prefix (m_options p))),
               error = ''invalid flag id used''\<rparr>, p)
      else parse_loop p (a + 1))"
  using assms by (auto simp: parse_loop.simps [of p a] Let_def)

lemma parse_loop_bool:
  assumes "a < length (m_args p)" and "is_flag (m_options p) (m_args p ! a)"
    and "parse_flag (m_options p) (m_args p ! a) (length (flag_prefix (m_options p))) = Some (sep_start, found_sep)"
    and "get p (substr (m_args p ! a) (length (flag_prefix (m_options p)))
            (sep_start - length (flag_prefix (m_options p)))) = Some flag"
    and "flag < length (m_flags p)" and "type (m_flags p ! flag) = Bool"
  shows "parse_loop p a =
     parse_loop (p\<lparr>m_flags := (m_flags p)
                    [flag := (m_flags p ! flag)\<lparr>data := DBool True, triggered := True\<rparr>]\<rparr>) (a + 1)"
  using assms by (auto simp: parse_loop.simps [of p a] Let_def)

lemma parse_loop_inline:
  assumes "a < length (m_args p)" and "is_flag (m_options p) (m_args p ! a)"
    and "parse_flag (m_options p) (m_args p ! a) (length (flag_prefix (m_options p))) = Some (sep_start, found_sep)"
    and "get p (substr (m_args p ! a) (length (flag_prefix (m_options p)))
            (sep_start - length (flag_prefix (m_options p)))) = Some flag"
    and "flag < length (m_flags p)" and "type (m_flags p ! flag) \<noteq> Bool"
    and "found_sep" and "sep_start + 1 < length (m_args p ! a)"
  shows "parse_loop p a =
     (let r = set_value (drop (sep_start + 1) (m_args p ! a)) (m_flags p ! flag);
          p' = p\<lparr>m_flags := (m_flags p)[flag := snd r]\<rparr>
      in if \<not> fst r then
           Some (\<lparr>ok = False,
                  flag_id = substr (m_args p ! a) (length (flag_prefix (m_options p)))
                              (sep_start - length (flag_prefix (m_options p))),
                  error = ''could not set flag value''\<rparr>, p')
         else parse_loop p' (a + 1))"
  using assms by (auto simp: parse_loop.simps [of p a] Let_def split_beta)

lemma parse_loop_lookahead:
  assumes "a < length (m_args p)" and "is_flag (m_options p) (m_args p ! a)"
    and "parse_flag (m_options p) (m_args p ! a) (length (flag_prefix (m_options p))) = Some (sep_start, found_sep)"
    and "get p (substr (m_args p ! a) (length (flag_prefix (m_options p)))
            (sep_start - length (flag_prefix (m_options p)))) = Some flag"
    and "flag < length (m_flags p)" and "type (m_flags p ! flag) \<noteq> Bool"
    and "\<not> (found_sep \<and> sep_start + 1 < length (m_args p ! a))"
    and "a + 1 < length (m_args p)"
  shows "parse_loop p a =
     (let r = set_value (m_args p ! (a + 1)) (m_flags p ! flag);
          p' = p\<lparr>m_flags := (m_flags p)[flag := snd r]\<rparr>
      in if \<not> fst r then
           Some (\<lparr>ok = False,
                  flag_id = substr (m_args p ! a) (length (flag_prefix (m_options p)))
                              (sep_start - length (flag_prefix (m_options p))),
                  error = ''could not set flag value''\<rparr>, p')
         else parse_loop p' (a + 2))"
  using assms by (auto simp: parse_loop.simps [of p a] Let_def split_beta)

lemma parse_loop_no_value:
  assumes "a < length (m_args p)" and "is_flag (m_options p) (m_args p ! a)"
    and "parse_flag (m_options p) (m_args p ! a) (length (flag_prefix (m_options p))) = Some (sep_start, found_sep)"
    and "get p (substr (m_args p ! a) (length (flag_prefix (m_options p)))
            (sep_start - length (flag_prefix (m_options p)))) = Some flag"
    and "flag < length (m_flags p)" and "type (m_flags p ! flag) \<noteq> Bool"
    and "\<not> (found_sep \<and> sep_start + 1 < length (m_args p ! a))"
    and "\<not> a + 1 < length (m_args p)"
  shows "parse_loop p a =
      Some (\<lparr>ok = False,
                  flag_id = substr (m_args p ! a) (length (flag_prefix (m_options p)))
                              (sep_start - length (flag_prefix (m_options p))),
                  error = ''could not set flag value''\<rparr>, p)"
  using assms by (auto simp: parse_loop.simps [of p a] Let_def split_beta)


section \<open>Properties of the registry\<close>

lemma emplace_apply:
  "emplace t k v k' = (case t k' of Some w \<Rightarrow> Some w | None \<Rightarrow> if k' = k then Some v else None)"
  by (simp add: emplace_def split: option.splits)

lemma fold_emplace_apply:
  "fold (\<lambda>alias t. emplace t alias v) als t k =
     (case t k of Some w \<Rightarrow> Some w | None \<Rightarrow> if k \<in> set als then Some v else None)"
proof (induction als arbitrary: t)
  case Nil
  then show ?case by (simp split: option.splits)
next
  case (Cons al als)
  have "fold (\<lambda>alias t. emplace t alias v) (al # als) t k =
        fold (\<lambda>alias t. emplace t alias v) als (emplace t al v) k"
    by simp
  also have "\<dots> = (case emplace t al v k of Some w \<Rightarrow> Some w
                     | None \<Rightarrow> if k \<in> set als then Some v else None)"
    by (rule Cons.IH)
  also have "\<dots> = (case t k of Some w \<Rightarrow> Some w
                     | None \<Rightarrow> if k \<in> set (al # als) then Some v else None)"
    by (simp add: emplace_apply [of t al v k] split: option.splits)
  finally show ?case .
qed

lemma set_flag_table:
  "m_table (set_flag f p) k =
     (case m_table p k of
        Some w \<Rightarrow> Some w
      | None \<Rightarrow> if k \<in> keys f then Some (length (m_flags p)) else None)"
  by (simp add: set_flag_def Let_def fold_emplace_apply emplace_apply keys_def split: option.splits)

lemma set_flag_flags: "m_flags (set_flag f p) = m_flags p @ [f]"
  by (simp add: set_flag_def Let_def)

lemma register_flags: "m_flags (register fs p) = m_flags p @ fs"
  by (induction fs arbitrary: p) (simp_all add: register_def set_flag_flags)

lemma register_keeps:
  "m_table p k = Some w \<Longrightarrow> m_table (register fs p) k = Some w"
  by (induction fs arbitrary: p) (simp_all add: register_def set_flag_table)

lemma register_absent:
  "m_table p k = None \<Longrightarrow> \<forall>f \<in> set fs. k \<notin> keys f \<Longrightarrow> m_table (register fs p) k = None"
  by (induction fs arbitrary: p) (simp_all add: register_def set_flag_table)

lemma register_first:
  "m_table p k = None \<Longrightarrow> j < length fs \<Longrightarrow> k \<in> keys (fs ! j)
     \<Longrightarrow> \<forall>j' < j. k \<notin> keys (fs ! j')
     \<Longrightarrow> m_table (register fs p) k = Some (length (m_flags p) + j)"
proof (induction fs arbitrary: p j)
  case Nil
  then show ?case by simp
next
  case (Cons f fs)
  show ?case
  proof (cases j)
    case 0
    with Cons.prems have "m_table (set_flag f p) k = Some (length (m_flags p))"
      by (simp add: set_flag_table)
    then have "m_table (register fs (set_flag f p)) k = Some (length (m_flags p))"
      by (rule register_keeps)
    with 0 show ?thesis by (simp add: register_def)
  next
    case (Suc j0)
    with Cons.prems have nf: "k \<notin> keys f" by auto
    with Cons.prems have none: "m_table (set_flag f p) k = None"
      by (simp add: set_flag_table)
    from Suc Cons.prems have "j0 < length fs" "k \<in> keys (fs ! j0)" "\<forall>j' < j0. k \<notin> keys (fs ! j')"
      by auto
    from Cons.IH [OF none this]
    have "m_table (register fs (set_flag f p)) k = Some (length (m_flags (set_flag f p)) + j0)" .
    with Suc show ?thesis by (simp add: register_def set_flag_flags)
  qed
qed

lemma demo_parser_fields:
  "m_flags (demo_parser args sep strict) = demo_flags"
  "m_options (demo_parser args sep strict) = demo_options sep strict"
  "m_args (demo_parser args sep strict) = args"
  "m_flagless (demo_parser args sep strict) = []"
  by (simp_all add: demo_parser_def register_def set_flag_def demo_flags_def new_Parser_def Let_def)

lemma demo_parser_get:
  "get (demo_parser args sep strict) k =
     (if k = ''name'' \<or> k = ''n'' then Some 0
      else if k = ''num'' then Some 1
      else if k = ''verbose'' \<or> k = ''v'' then Some 2
      else None)"
  by (simp add: get_def demo_parser_def register_def demo_flags_def set_flag_table
      keys_def new_Parser_def set_flag_flags flag_name_def flag_num_def flag_verbose_def)

lemma parse_flag_single_found:
  assumes "c \<notin> set nm" and "pre @ nm \<noteq> []"
  shows "parse_flag_loop (pre @ nm @ c # rest) [c] (length pre) = Some (length pre + length nm, True)"
proof -
  let ?str = "pre @ nm @ c # rest"
  have "\<forall>k. length pre \<le> k \<and> k < length pre + length nm \<longrightarrow> ?str ! k \<noteq> [c] ! 0"
  proof (intro allI impI)
    fix k assume k: "length pre \<le> k \<and> k < length pre + length nm"
    then have "?str ! k = nm ! (k - length pre)" by (auto simp: nth_append)
    moreover from k have "nm ! (k - length pre) \<in> set nm" by (intro nth_mem) arith
    ultimately show "?str ! k \<noteq> [c] ! 0" using assms(1) by auto
  qed
  then have "parse_flag_loop ?str [c] (length pre) = parse_flag_loop ?str [c] (length pre + length nm)"
    by (intro parse_flag_loop_skip) simp_all
  also have "\<dots> = Some (length pre + length nm, True)"
  proof (rule parse_flag_loop_hit)
    from assms(2) show "length [c] \<le> length pre + length nm"
      by (cases pre; cases nm) simp_all
    show "?str ! (length pre + length nm) = [c] ! 0" by (simp add: nth_append)
  qed simp_all
  finally show ?thesis .
qed

lemma parse_flag_single_none:
  assumes "c \<notin> set nm"
  shows "parse_flag_loop (pre @ nm) [c] (length pre) = Some (length pre + length nm, False)"
proof -
  let ?str = "pre @ nm"
  have "\<forall>k. length pre \<le> k \<and> k < length pre + length nm \<longrightarrow> ?str ! k \<noteq> [c] ! 0"
  proof (intro allI impI)
    fix k assume k: "length pre \<le> k \<and> k < length pre + length nm"
    then have "?str ! k = nm ! (k - length pre)" by (auto simp: nth_append)
    moreover from k have "nm ! (k - length pre) \<in> set nm" by (intro nth_mem) arith
    ultimately show "?str ! k \<noteq> [c] ! 0" using assms(1) by auto
  qed
  then have "parse_flag_loop ?str [c] (length pre) = parse_flag_loop ?str [c] (length pre + length nm)"
    by (intro parse_flag_loop_skip) simp_all
  also have "\<dots> = Some (length pre + length nm, False)"
    using parse_flag_loop_end [of ?str "length pre + length nm" "[c]"] by simp
  finally show ?thesis .
qed

lemma set_value_String:
  "type flag = String \<Longrightarrow> set_value str flag = (True, flag\<lparr>data := DString str, triggered := True\<rparr>)"
  by (simp add: set_value_def)

lemma set_value_Number:
  "type flag = Number \<Longrightarrow>
     set_value str flag =
       (if ec (fst (from_chars str (Finite 0))) \<noteq> errc_none then (False, flag)
        else (True, flag\<lparr>data := DDouble (snd (from_chars str (Finite 0))), triggered := True\<rparr>))"
  by (simp add: set_value_def split_beta)


lemma is_space_facts:
  assumes "is_space c"
  shows "\<not> is_digit c" "c \<noteq> CHR ''-''" "c \<noteq> CHR ''.''" "to_lower c = c"
    "c \<noteq> CHR ''i''" "c \<noteq> CHR ''n''"
  using assms by (auto simp: is_space_def is_digit_def to_lower_def)

lemma from_chars_leading_space:
  assumes "is_space c"
  shows "ec (fst (from_chars (c # t) v)) = invalid_argument"
proof -
  note f = is_space_facts [OF assms]
  have inf: "\<not> starts_with_ci (c # t) ''inf''" and nan: "\<not> starts_with_ci (c # t) ''nan''"
    using f by (auto simp: starts_with_ci_def)
  have neg: "\<not> ((c # t) \<noteq> [] \<and> hd (c # t) = CHR ''-'')" using f by simp
  show ?thesis
    using f(1,3) by (simp add: from_chars_def inf nan Let_def f(2))
qed

lemma takeWhile_digits_append:
  assumes "\<forall>c \<in> set ds. is_digit c" and "g \<noteq> [] \<longrightarrow> \<not> is_digit (hd g)"
  shows "takeWhile is_digit (ds @ g) = ds" and "dropWhile is_digit (ds @ g) = g"
proof -
  from assms(2) have g: "takeWhile is_digit g = []" "dropWhile is_digit g = g"
    by (cases g; simp)+
  from assms(1) show "takeWhile is_digit (ds @ g) = ds" by (simp add: takeWhile_append2 g)
  from assms(1) show "dropWhile is_digit (ds @ g) = g" by (simp add: dropWhile_append2 g)
qed

lemma from_chars_digits_then_text:
  assumes ds: "ds \<noteq> []" "\<forall>c \<in> set ds. is_digit c"
    and g: "g \<noteq> [] \<longrightarrow> \<not> is_digit (hd g) \<and> hd g \<notin> {CHR ''.'', CHR ''e'', CHR ''E''}"
    and range: "int (digits_value ds) < 2 ^ 1024 - 2 ^ 970"
  shows "from_chars (ds @ g) v =
           (\<lparr>ptr = length ds, ec = errc_none\<rparr>, Finite (of_nat (digits_value ds)))"
proof -
  from ds obtain d ds' where dd: "ds = d # ds'" by (cases ds) auto
  with ds have d: "is_digit d" by simp
  then have neg: "((ds @ g) \<noteq> [] \<and> hd (ds @ g) = CHR ''-'') = False"
    by (auto simp: dd is_digit_def)
  from d have inf: "starts_with_ci (ds @ g) ''inf'' = False"
    and nan: "starts_with_ci (ds @ g) ''nan'' = False"
    by (auto simp: dd is_digit_def starts_with_ci_def to_lower_def)
  from ds g have tw: "takeWhile is_digit (ds @ g) = ds" "dropWhile is_digit (ds @ g) = g"
    using takeWhile_digits_append [of ds g] by auto
  from g have dot: "(g \<noteq> [] \<and> hd g = CHR ''.'') = False" by auto
  from g have ex: "exponent_part g = (0, 0)"
    by (cases g) (auto simp: exponent_part_def)
  from range have rep: "representable (digits_value ds) 0" by (simp add: representable_def)
  have "from_chars (ds @ g) v =
          (if ds = [] then (\<lparr>ptr = 0, ec = invalid_argument\<rparr>, v)
           else (\<lparr>ptr = length ds, ec = errc_none\<rparr>, Finite (decimal (digits_value ds) 0)))"
    unfolding from_chars_def Let_def neg
    by (simp only: if_False drop_0 inf nan tw dot ex rep
        append_Nil2 list.size simp_thms split_conv add_0 add_0_right of_nat_0 diff_zero
        if_True)
  with ds(1) show ?thesis by (simp add: decimal_def)
qed

lemma parse_loop_value:
  assumes "a < length (m_args p)" and "is_flag (m_options p) (m_args p ! a)"
    and "parse_flag (m_options p) (m_args p ! a) (length (flag_prefix (m_options p))) = Some (sep_start, found_sep)"
    and "get p (substr (m_args p ! a) (length (flag_prefix (m_options p)))
            (sep_start - length (flag_prefix (m_options p)))) = Some flag"
    and "flag < length (m_flags p)" and "type (m_flags p ! flag) \<noteq> Bool"
    and "(found_sep \<and> sep_start + 1 < length (m_args p ! a)) \<or> a + 1 < length (m_args p)"
    and "value_str = (if found_sep \<and> sep_start + 1 < length (m_args p ! a)
                      then drop (sep_start + 1) (m_args p ! a) else m_args p ! (a + 1))"
  shows "parse_loop p a =
     (if fst (set_value value_str (m_flags p ! flag)) then
        parse_loop (p\<lparr>m_flags := (m_flags p)[flag := snd (set_value value_str (m_flags p ! flag))]\<rparr>)
          (if found_sep \<and> sep_start + 1 < length (m_args p ! a) then a + 1 else a + 2)
      else
        Some (\<lparr>ok = False,
               flag_id = substr (m_args p ! a) (length (flag_prefix (m_options p)))
                           (sep_start - length (flag_prefix (m_options p))),
               error = ''could not set flag value''\<rparr>,
              p\<lparr>m_flags := (m_flags p)[flag := snd (set_value value_str (m_flags p ! flag))]\<rparr>))"
proof (cases "found_sep \<and> sep_start + 1 < length (m_args p ! a)")
  case True
  then have v: "value_str = drop (sep_start + 1) (m_args p ! a)" using assms(8) by auto
  from True have t1: found_sep and t2: "sep_start + 1 < length (m_args p ! a)" by simp_all
  show ?thesis
    unfolding parse_loop_inline [OF assms(1-6) t1 t2] v Let_def
    using t1 t2 by simp
next
  case False
  then have v: "value_str = m_args p ! (a + 1)" using assms(8) by auto
  from False assms(7) have next_token: "a + 1 < length (m_args p)" by blast
  show ?thesis
    unfolding parse_loop_lookahead [OF assms(1-6) False next_token] v Let_def
    using False by auto
qed

lemma from_chars_3_14xyz:
  "from_chars ''3.14xyz'' (Finite 0) = (\<lparr>ptr = 4, ec = errc_none\<rparr>, Finite (157 / 50))"
  by (simp add: from_chars_def starts_with_ci_def to_lower_def is_digit_def Let_def
      exponent_part_def digits_value_def digit_value_def representable_def decimal_def)

lemma from_chars_abc:
  "from_chars ''abc'' (Finite 0) = (\<lparr>ptr = 0, ec = invalid_argument\<rparr>, Finite 0)"
  by (simp add: from_chars_def starts_with_ci_def to_lower_def is_digit_def Let_def)

lemma parse_loop_step_cases:
  assumes a: "a < length (m_args p)"
    and isf: "is_flag (m_options p) (m_args p ! a)"
    and res: "parse_loop p a = Some (r, p')"
  shows "\<exists>fl. length fl = length (m_flags p) \<and>
           (\<forall>f \<in> set fl. f \<in> set (m_flags p) \<or> type f = Bool \<or> (\<exists>g \<in> set (m_flags p). type g \<noteq> Bool)) \<and>
           ((\<not> ok r \<and> p' = p\<lparr>m_flags := fl\<rparr>)
            \<or> parse_loop (p\<lparr>m_flags := fl\<rparr>) (a + 1) = Some (r, p')
            \<or> ((\<exists>g \<in> set (m_flags p). type g \<noteq> Bool) \<and> a + 1 < length (m_args p)
                \<and> parse_loop (p\<lparr>m_flags := fl\<rparr>) (a + 2) = Some (r, p')))"
proof -
  let ?pe = "length (flag_prefix (m_options p))"
  have same: "p\<lparr>m_flags := m_flags p\<rparr> = p" by simp
  from a isf res obtain sep_start found_sep where
    pf: "parse_flag (m_options p) (m_args p ! a) ?pe = Some (sep_start, found_sep)"
    by (cases "parse_flag (m_options p) (m_args p ! a) ?pe")
      (auto simp: parse_loop.simps [of p a] Let_def)
  let ?id = "substr (m_args p ! a) ?pe (sep_start - ?pe)"
  show ?thesis
  proof (cases "get p ?id")
    case None
    note step = parse_loop_unknown [OF a isf pf None]
    show ?thesis
    proof (cases "strict_flags (m_options p)")
      case True
      with step res have "\<not> ok r \<and> p' = p\<lparr>m_flags := m_flags p\<rparr>" by auto
      then show ?thesis by (intro exI [of _ "m_flags p"]) simp
    next
      case False
      with step res have "parse_loop (p\<lparr>m_flags := m_flags p\<rparr>) (a + 1) = Some (r, p')" by simp
      then show ?thesis by (intro exI [of _ "m_flags p"]) simp
    qed
  next
    case (Some flag)
    from a isf pf Some res have fl: "flag < length (m_flags p)"
      by (cases "flag < length (m_flags p)") (auto simp: parse_loop.simps [of p a] Let_def)
    show ?thesis
    proof (cases "type (m_flags p ! flag) = Bool")
      case True
      let ?fl = "(m_flags p)[flag := (m_flags p ! flag)\<lparr>data := DBool True, triggered := True\<rparr>]"
      from parse_loop_bool [OF a isf pf Some fl True] res
      have "parse_loop (p\<lparr>m_flags := ?fl\<rparr>) (a + 1) = Some (r, p')" by simp
      moreover have "\<forall>f \<in> set ?fl. f \<in> set (m_flags p) \<or> type f = Bool
          \<or> (\<exists>g \<in> set (m_flags p). type g \<noteq> Bool)"
        using True by (auto dest!: subsetD [OF set_update_subset_insert])
      ultimately show ?thesis by (intro exI [of _ ?fl]) simp
    next
      case False
      from fl have mem: "m_flags p ! flag \<in> set (m_flags p)" by simp
      with False have nb: "\<exists>g \<in> set (m_flags p). type g \<noteq> Bool" by blast
      show ?thesis
      proof (cases "(found_sep \<and> sep_start + 1 < length (m_args p ! a)) \<or> a + 1 < length (m_args p)")
        case hasv: True
        define value_str where "value_str = (if found_sep \<and> sep_start + 1 < length (m_args p ! a)
                      then drop (sep_start + 1) (m_args p ! a) else m_args p ! (a + 1))"
        let ?fl = "(m_flags p)[flag := snd (set_value value_str (m_flags p ! flag))]"
        note step = parse_loop_value [OF a isf pf Some fl False hasv value_str_def]
        have all: "\<forall>f \<in> set ?fl. f \<in> set (m_flags p) \<or> type f = Bool
            \<or> (\<exists>g \<in> set (m_flags p). type g \<noteq> Bool)"
          using nb by blast
        show ?thesis
        proof (cases "fst (set_value value_str (m_flags p ! flag))")
          case False
          with step res have "\<not> ok r \<and> p' = p\<lparr>m_flags := ?fl\<rparr>" by auto
          with all show ?thesis by (intro exI [of _ ?fl]) simp
        next
          case True
          show ?thesis
          proof (cases "found_sep \<and> sep_start + 1 < length (m_args p ! a)")
            case True
            with step res \<open>fst (set_value value_str (m_flags p ! flag))\<close>
            have "parse_loop (p\<lparr>m_flags := ?fl\<rparr>) (a + 1) = Some (r, p')" by simp
            with all show ?thesis by (intro exI [of _ ?fl]) simp
          next
            case False
            with hasv have nx: "a + 1 < length (m_args p)" by blast
            from False step res \<open>fst (set_value value_str (m_flags p ! flag))\<close>
            have "parse_loop (p\<lparr>m_flags := ?fl\<rparr>) (a + 2) = Some (r, p')" by auto
            with all nb nx show ?thesis by (intro exI [of _ ?fl]) simp
          qed
        qed
      next
        case False
        then have 1: "\<not> (found_sep \<and> sep_start + 1 < length (m_args p ! a))"
          and 2: "\<not> a + 1 < length (m_args p)" by blast+
        from parse_loop_no_value [OF a isf pf Some fl \<open>type (m_flags p ! flag) \<noteq> Bool\<close> 1 2] res
        have "\<not> ok r \<and> p' = p\<lparr>m_flags := m_flags p\<rparr>" by auto
        then show ?thesis by (intro exI [of _ "m_flags p"]) simp
      qed
    qed
  qed
qed

lemma subseq_filter_drop_Suc:
  assumes "a < length xs" and "subseq ys (filter P (drop (a + 1) xs))"
  shows "subseq ys (filter P (drop a xs))"
proof -
  from assms(1) have "drop a xs = xs ! a # drop (a + 1) xs"
    by (simp add: Cons_nth_drop_Suc)
  then have "filter P (drop a xs) = [x \<leftarrow> [xs ! a]. P x] @ filter P (drop (a + 1) xs)"
    by simp
  with assms(2) show ?thesis by (simp only: subseq_drop_many)
qed

lemma parse_loop_flagless_subseq:
  "parse_loop p a = Some (r, p') \<Longrightarrow>
     \<exists>ps. m_flagless p' = m_flagless p @ ps
        \<and> subseq ps (filter (\<lambda>s. \<not> is_flag (m_options p) s) (drop a (m_args p)))"
proof (induction "length (m_args p) - a" arbitrary: p a rule: less_induct)
  case less
  let ?P = "\<lambda>s. \<not> is_flag (m_options p) s"
  show ?case
  proof (cases "a < length (m_args p)")
    case False
    with less.prems parse_loop_done [of p a] have "p' = p" by simp
    then show ?thesis by simp
  next
    case a: True
    show ?thesis
    proof (cases "is_flag (m_options p) (m_args p ! a)")
      case False
      let ?p1 = "p\<lparr>m_flagless := m_flagless p @ [m_args p ! a]\<rparr>"
      from parse_loop_positional [OF a False] less.prems
      have "parse_loop ?p1 (a + 1) = Some (r, p')" by simp
      moreover from a have "length (m_args ?p1) - (a + 1) < length (m_args p) - a" by simp
      ultimately obtain ps where ps: "m_flagless p' = m_flagless ?p1 @ ps"
        "subseq ps (filter (\<lambda>s. \<not> is_flag (m_options ?p1) s) (drop (a + 1) (m_args ?p1)))"
        using less.hyps [of ?p1 "a + 1"] by blast
      from a have "drop a (m_args p) = m_args p ! a # drop (a + 1) (m_args p)"
        by (simp add: Cons_nth_drop_Suc)
      with False have "filter ?P (drop a (m_args p)) = m_args p ! a # filter ?P (drop (a + 1) (m_args p))"
        by simp
      with ps show ?thesis
        by (intro exI [of _ "m_args p ! a # ps"]) simp
    next
      case True
      from parse_loop_step_cases [OF a True less.prems] obtain fl where
        alt: "(\<not> ok r \<and> p' = p\<lparr>m_flags := fl\<rparr>)
            \<or> parse_loop (p\<lparr>m_flags := fl\<rparr>) (a + 1) = Some (r, p')
            \<or> (a + 1 < length (m_args p)
                \<and> parse_loop (p\<lparr>m_flags := fl\<rparr>) (a + 2) = Some (r, p'))"
        by blast
      let ?p1 = "p\<lparr>m_flags := fl\<rparr>"
      from alt consider
        (stop) "p' = ?p1"
        | (one) "parse_loop ?p1 (a + 1) = Some (r, p')"
        | (two) "a + 1 < length (m_args p)" "parse_loop ?p1 (a + 2) = Some (r, p')"
        by blast
      then show ?thesis
      proof cases
        case stop
        then show ?thesis by simp
      next
        case one
        moreover from a have "length (m_args ?p1) - (a + 1) < length (m_args p) - a" by simp
        ultimately obtain ps where ps: "m_flagless p' = m_flagless ?p1 @ ps"
          "subseq ps (filter (\<lambda>s. \<not> is_flag (m_options ?p1) s) (drop (a + 1) (m_args ?p1)))"
          using less.hyps [of ?p1 "a + 1"] by blast
        from ps(2) have "subseq ps (filter ?P (drop a (m_args p)))"
          using subseq_filter_drop_Suc [OF a, of ps ?P] by simp
        with ps(1) show ?thesis by simp
      next
        case two
        moreover from a have "length (m_args ?p1) - (a + 2) < length (m_args p) - a" by simp
        ultimately obtain ps where ps: "m_flagless p' = m_flagless ?p1 @ ps"
          "subseq ps (filter (\<lambda>s. \<not> is_flag (m_options ?p1) s) (drop (a + 2) (m_args ?p1)))"
          using less.hyps [of ?p1 "a + 2"] by blast
        from ps(2) have "subseq ps (filter ?P (drop (a + 1) (m_args p)))"
          using subseq_filter_drop_Suc [OF two(1), of ps ?P] by simp
        then have "subseq ps (filter ?P (drop a (m_args p)))"
          using subseq_filter_drop_Suc [OF a, of ps ?P] by simp
        with ps(1) show ?thesis by simp
      qed
    qed
  qed
qed

lemma parse_loop_flagless_exact:
  "parse_loop p a = Some (r, p') \<Longrightarrow> ok r \<Longrightarrow> \<forall>f \<in> set (m_flags p). type f = Bool \<Longrightarrow>
     m_flagless p' =
       m_flagless p @ filter (\<lambda>s. \<not> is_flag (m_options p) s) (drop a (m_args p))"
proof (induction "length (m_args p) - a" arbitrary: p a rule: less_induct)
  case less
  let ?P = "\<lambda>s. \<not> is_flag (m_options p) s"
  show ?case
  proof (cases "a < length (m_args p)")
    case False
    with less.prems parse_loop_done [of p a] have "p' = p" by simp
    with False show ?thesis by simp
  next
    case a: True
    then have dr: "drop a (m_args p) = m_args p ! a # drop (a + 1) (m_args p)"
      by (simp add: Cons_nth_drop_Suc)
    show ?thesis
    proof (cases "is_flag (m_options p) (m_args p ! a)")
      case False
      let ?p1 = "p\<lparr>m_flagless := m_flagless p @ [m_args p ! a]\<rparr>"
      from parse_loop_positional [OF a False] less.prems
      have "parse_loop ?p1 (a + 1) = Some (r, p')" by simp
      moreover from a have "length (m_args ?p1) - (a + 1) < length (m_args p) - a" by simp
      moreover from less.prems have "\<forall>f \<in> set (m_flags ?p1). type f = Bool" by simp
      ultimately have "m_flagless p' = m_flagless ?p1 @
          filter (\<lambda>s. \<not> is_flag (m_options ?p1) s) (drop (a + 1) (m_args ?p1))"
        using less.hyps [of ?p1 "a + 1"] less.prems(2) by blast
      with False dr show ?thesis by simp
    next
      case True
      from less.prems(3) have nb: "\<not> (\<exists>g \<in> set (m_flags p). type g \<noteq> Bool)" by blast
      from parse_loop_step_cases [OF a True less.prems(1)] less.prems(2) nb obtain fl where
        fl: "\<forall>f \<in> set fl. f \<in> set (m_flags p) \<or> type f = Bool"
        and one: "parse_loop (p\<lparr>m_flags := fl\<rparr>) (a + 1) = Some (r, p')"
        by blast
      let ?p1 = "p\<lparr>m_flags := fl\<rparr>"
      from fl less.prems(3) have "\<forall>f \<in> set (m_flags ?p1). type f = Bool" by auto
      moreover from a have "length (m_args ?p1) - (a + 1) < length (m_args p) - a" by simp
      ultimately have "m_flagless p' = m_flagless ?p1 @
          filter (\<lambda>s. \<not> is_flag (m_options ?p1) s) (drop (a + 1) (m_args ?p1))"
        using less.hyps [of ?p1 "a + 1"] one less.prems(2) by blast
      with True dr show ?thesis by simp
    qed
  qed
qed

lemma switch_parser_fields:
  "m_flags (switch_parser args) = [flag_verbose]"
  "m_options (switch_parser args) = demo_options ''='' True"
  "m_args (switch_parser args) = args"
  "m_flagless (switch_parser args) = []"
  by (simp_all add: switch_parser_def register_def set_flag_def new_Parser_def Let_def)

lemma switch_parser_get:
  "get (switch_parser args) k = (if k = ''verbose'' \<or> k = ''v'' then Some 0 else None)"
  by (simp add: get_def switch_parser_def register_def set_flag_table keys_def new_Parser_def
      flag_verbose_def)

section \<open>Properties of the reached tokens\<close>

lemma reached_ge: "i \<in> set (reached p a) \<Longrightarrow> a \<le> i"
proof (induction p a rule: reached.induct)
  case (1 p a)
  show ?case
  proof (cases "a < length (m_args p)")
    case False
    with "1.prems" show ?thesis by (simp add: reached.simps [of p a])
  next
    case True
    show ?thesis
    proof (cases "next_index p a")
      case None
      with True "1.prems" show ?thesis by (simp add: reached.simps [of p a])
    next
      case (Some b)
      with True "1.prems" have "i = a \<or> i \<in> set (reached p b)"
        by (simp add: reached.simps [of p a])
      moreover from Some have "a < b" by (rule next_index_gt)
      ultimately show ?thesis using "1.IH" [OF True Some] by auto
    qed
  qed
qed

lemma reached_stops:
  "b \<in> set (reached p a) \<Longrightarrow> next_index p b = None \<Longrightarrow> i \<in> set (reached p a) \<Longrightarrow> i \<le> b"
proof (induction p a rule: reached.induct)
  case (1 p a)
  show ?case
  proof (cases "a < length (m_args p)")
    case False
    with "1.prems" show ?thesis by (simp add: reached.simps [of p a])
  next
    case True
    show ?thesis
    proof (cases "next_index p a")
      case None
      with True "1.prems" show ?thesis by (simp add: reached.simps [of p a])
    next
      case (Some c)
      then have ac: "a < c" by (rule next_index_gt)
      from Some True have r: "reached p a = a # reached p c"
        by (simp add: reached.simps [of p a])
      from "1.prems"(2) Some have "b \<noteq> a" by auto
      with r "1.prems"(1) have b: "b \<in> set (reached p c)" by simp
      then have "c \<le> b" by (rule reached_ge)
      show ?thesis
      proof (cases "i = a")
        case True
        with ac \<open>c \<le> b\<close> show ?thesis by simp
      next
        case False
        with r "1.prems"(3) have "i \<in> set (reached p c)" by simp
        with "1.IH" [OF True Some b "1.prems"(2)] show ?thesis by simp
      qed
    qed
  qed
qed

lemma set_value_type: "type (snd (set_value str flag)) = type flag"
  by (cases "type flag") (simp_all add: set_value_def split_beta)

lemma set_value_fst_type:
  "type f = type g \<Longrightarrow> fst (set_value str f) = fst (set_value str g)"
  by (cases "type g") (simp_all add: set_value_def split_beta)

lemma next_index_shape:
  assumes "m_options p1 = m_options p" and "m_args p1 = m_args p" and "m_table p1 = m_table p"
    and "map type (m_flags p1) = map type (m_flags p)"
  shows "next_index p1 a = next_index p a"
proof -
  from assms(4) have len: "length (m_flags p1) = length (m_flags p)"
    by (metis length_map)
  have ty: "type (m_flags p1 ! k) = type (m_flags p ! k)" if "k < length (m_flags p)" for k
    using that assms(4) len by (metis nth_map)
  have sv: "fst (set_value s (m_flags p1 ! k)) = fst (set_value s (m_flags p ! k))"
    if "k < length (m_flags p)" for k s
    using ty [OF that] by (rule set_value_fst_type)
  have g: "get p1 k = get p k" for k by (simp add: get_def assms(3))
  show ?thesis
    unfolding next_index_def Let_def assms(1,2) g len
    by (auto split: option.splits simp: ty sv)
qed

lemma reached_shape:
  assumes "m_options p1 = m_options p" and "m_args p1 = m_args p" and "m_table p1 = m_table p"
    and "map type (m_flags p1) = map type (m_flags p)"
  shows "reached p1 a = reached p a"
proof (induction "length (m_args p) - a" arbitrary: a rule: less_induct)
  case less
  note ni = next_index_shape [OF assms, of a]
  show ?case
  proof (cases "a < length (m_args p)")
    case False
    then show ?thesis by (simp add: reached.simps [of p1 a] reached.simps [of p a] assms(2))
  next
    case True
    show ?thesis
    proof (cases "next_index p a")
      case None
      with True ni show ?thesis
        by (simp add: reached.simps [of p1 a] reached.simps [of p a] assms(2))
    next
      case (Some b)
      then have "a < b" by (rule next_index_gt)
      with True have "length (m_args p) - b < length (m_args p) - a" by simp
      then have "reached p1 b = reached p b" by (rule less.hyps)
      with True ni Some show ?thesis
        by (simp add: reached.simps [of p1 a] reached.simps [of p a] assms(2))
    qed
  qed
qed

lemma reached_positionals_shape:
  assumes "m_options p1 = m_options p" and "m_args p1 = m_args p" and "m_table p1 = m_table p"
    and "map type (m_flags p1) = map type (m_flags p)"
  shows "reached_positionals p1 a = reached_positionals p a"
  by (simp add: reached_positionals_def reached_shape [OF assms] assms(1,2))

lemma map_type_update:
  "k < length fl \<Longrightarrow> type f = type (fl ! k) \<Longrightarrow> map type (fl[k := f]) = map type fl"
  by (simp add: map_update list_update_same_conv)

lemma parse_loop_next:
  assumes a: "a < length (m_args p)" and res: "parse_loop p a = Some (r, p')"
  shows "case next_index p a of
           None \<Rightarrow> \<not> ok r \<and> m_flagless p' = m_flagless p
         | Some b \<Rightarrow>
             (\<exists>p1. parse_loop p1 b = Some (r, p')
                \<and> m_options p1 = m_options p \<and> m_args p1 = m_args p \<and> m_table p1 = m_table p
                \<and> map type (m_flags p1) = map type (m_flags p)
                \<and> m_flagless p1 =
                    m_flagless p @ (if is_flag (m_options p) (m_args p ! a) then [] else [m_args p ! a]))"
proof (cases "is_flag (m_options p) (m_args p ! a)")
  case False
  let ?p1 = "p\<lparr>m_flagless := m_flagless p @ [m_args p ! a]\<rparr>"
  from False have ni: "next_index p a = Some (a + 1)" by (simp add: next_index_def)
  from parse_loop_positional [OF a False] res have "parse_loop ?p1 (a + 1) = Some (r, p')" by simp
  with False show ?thesis unfolding ni by (auto intro!: exI [of _ ?p1])
next
  case isf: True
  let ?pe = "length (flag_prefix (m_options p))"
  from a isf res obtain sep_start found_sep where
    pf: "parse_flag (m_options p) (m_args p ! a) ?pe = Some (sep_start, found_sep)"
    by (cases "parse_flag (m_options p) (m_args p ! a) ?pe")
      (auto simp: parse_loop.simps [of p a] Let_def)
  let ?id = "substr (m_args p ! a) ?pe (sep_start - ?pe)"
  show ?thesis
  proof (cases "get p ?id")
    case None
    note step = parse_loop_unknown [OF a isf pf None]
    show ?thesis
    proof (cases "strict_flags (m_options p)")
      case True
      with isf pf None have ni: "next_index p a = None" by (simp add: next_index_def)
      from True step res show ?thesis unfolding ni by auto
    next
      case False
      with isf pf None have ni: "next_index p a = Some (a + 1)" by (simp add: next_index_def)
      from False step res have "parse_loop p (a + 1) = Some (r, p')" by simp
      with isf show ?thesis unfolding ni by (auto intro!: exI [of _ p])
    qed
  next
    case (Some flag)
    from a isf pf Some res have fl: "flag < length (m_flags p)"
      by (cases "flag < length (m_flags p)") (auto simp: parse_loop.simps [of p a] Let_def)
    show ?thesis
    proof (cases "type (m_flags p ! flag) = Bool")
      case True
      let ?p1 = "p\<lparr>m_flags := (m_flags p)
                    [flag := (m_flags p ! flag)\<lparr>data := DBool True, triggered := True\<rparr>]\<rparr>"
      from isf pf Some fl True have ni: "next_index p a = Some (a + 1)"
        by (simp add: next_index_def)
      from parse_loop_bool [OF a isf pf Some fl True] res
      have "parse_loop ?p1 (a + 1) = Some (r, p')" by simp
      moreover have "map type (m_flags ?p1) = map type (m_flags p)"
        using fl by (simp add: map_type_update)
      ultimately show ?thesis unfolding ni using isf by (auto intro!: exI [of _ ?p1])
    next
      case nb: False
      show ?thesis
      proof (cases "(found_sep \<and> sep_start + 1 < length (m_args p ! a)) \<or> a + 1 < length (m_args p)")
        case hasv: True
        define value_str where "value_str = (if found_sep \<and> sep_start + 1 < length (m_args p ! a)
                      then drop (sep_start + 1) (m_args p ! a) else m_args p ! (a + 1))"
        let ?p1 = "p\<lparr>m_flags := (m_flags p)[flag := snd (set_value value_str (m_flags p ! flag))]\<rparr>"
        let ?b = "if found_sep \<and> sep_start + 1 < length (m_args p ! a) then a + 1 else a + 2"
        note step = parse_loop_value [OF a isf pf Some fl nb hasv value_str_def]
        have mt: "map type (m_flags ?p1) = map type (m_flags p)"
          using fl by (simp add: map_type_update set_value_type)
        from isf pf Some fl nb hasv have ni: "next_index p a =
            (if fst (set_value value_str (m_flags p ! flag)) then Some ?b else None)"
          by (auto simp: next_index_def value_str_def)
        show ?thesis
        proof (cases "fst (set_value value_str (m_flags p ! flag))")
          case False
          with step res have "\<not> ok r \<and> p' = ?p1" by auto
          with False show ?thesis unfolding ni by simp
        next
          case True
          with step res have "parse_loop ?p1 ?b = Some (r, p')" by simp
          with True mt isf show ?thesis unfolding ni by (auto intro!: exI [of _ ?p1])
        qed
      next
        case False
        then have 1: "\<not> (found_sep \<and> sep_start + 1 < length (m_args p ! a))"
          and 2: "\<not> a + 1 < length (m_args p)" by blast+
        from isf pf Some fl nb 1 2 have ni: "next_index p a = None"
          by (auto simp: next_index_def)
        from parse_loop_no_value [OF a isf pf Some fl nb 1 2] res
        show ?thesis unfolding ni by auto
      qed
    qed
  qed
qed

lemma parse_loop_reached:
  "parse_loop p a = Some (r, p') \<Longrightarrow>
     m_flagless p' = m_flagless p @ reached_positionals p a
     \<and> (ok r \<longleftrightarrow> (\<forall>b \<in> set (reached p a). next_index p b \<noteq> None))"
proof (induction "length (m_args p) - a" arbitrary: p a rule: less_induct)
  case less
  show ?case
  proof (cases "a < length (m_args p)")
    case False
    with less.prems parse_loop_done [of p a] have "p' = p" "ok r" by auto
    with False show ?thesis by (simp add: reached_positionals_def reached.simps [of p a])
  next
    case a: True
    note step = parse_loop_next [OF a less.prems]
    show ?thesis
    proof (cases "next_index p a")
      case None
      with step have "\<not> ok r" "m_flagless p' = m_flagless p" by simp_all
      moreover from None a have r: "reached p a = [a]" by (simp add: reached.simps [of p a])
      moreover from None have "is_flag (m_options p) (m_args p ! a)"
        by (auto simp: next_index_def Let_def split: if_splits)
      ultimately show ?thesis using None by (simp add: reached_positionals_def)
    next
      case (Some b)
      with step obtain p1 where p1: "parse_loop p1 b = Some (r, p')"
        and sh: "m_options p1 = m_options p" "m_args p1 = m_args p" "m_table p1 = m_table p"
          "map type (m_flags p1) = map type (m_flags p)"
        and fl: "m_flagless p1 =
            m_flagless p @ (if is_flag (m_options p) (m_args p ! a) then [] else [m_args p ! a])"
        by auto
      from Some have "a < b" by (rule next_index_gt)
      with a sh(2) have "length (m_args p1) - b < length (m_args p) - a" by simp
      from less.hyps [OF this p1]
      have ih: "m_flagless p' = m_flagless p1 @ reached_positionals p1 b"
        "ok r \<longleftrightarrow> (\<forall>c \<in> set (reached p1 b). next_index p1 c \<noteq> None)" by simp_all
      from Some a have r: "reached p a = a # reached p b" by (simp add: reached.simps [of p a])
      have rp: "reached_positionals p a =
          (if is_flag (m_options p) (m_args p ! a) then [] else [m_args p ! a]) @ reached_positionals p b"
        by (simp add: reached_positionals_def r)
      from ih(1) fl rp have "m_flagless p' = m_flagless p @ reached_positionals p a"
        by (simp add: reached_positionals_shape [OF sh])
      moreover from ih(2) Some have "ok r \<longleftrightarrow> (\<forall>c \<in> set (reached p a). next_index p c \<noteq> None)"
        by (simp add: r reached_shape [OF sh] next_index_shape [OF sh])
      ultimately show ?thesis by simp
    qed
  qed
qed

lemma reached_skips_lookahead:
  assumes "a < length (m_args p)" and "is_flag (m_options p) (m_args p ! a)"
    and "parse_flag (m_options p) (m_args p ! a) (length (flag_prefix (m_options p))) = Some (sep_start, found_sep)"
    and "get p (substr (m_args p ! a) (length (flag_prefix (m_options p)))
            (sep_start - length (flag_prefix (m_options p)))) = Some flag"
    and "flag < length (m_flags p)" and "type (m_flags p ! flag) \<noteq> Bool"
    and "\<not> (found_sep \<and> sep_start + 1 < length (m_args p ! a))"
    and "a + 1 < length (m_args p)"
  shows "a + 1 \<notin> set (reached p a)"
proof
  assume mem: "a + 1 \<in> set (reached p a)"
  from assms have ni: "next_index p a =
      (if fst (set_value (m_args p ! (a + 1)) (m_flags p ! flag)) then Some (a + 2) else None)"
    by (auto simp: next_index_def)
  show False
  proof (cases "fst (set_value (m_args p ! (a + 1)) (m_flags p ! flag))")
    case False
    with ni assms(1) have "reached p a = [a]" by (simp add: reached.simps [of p a])
    with mem show False by simp
  next
    case True
    with ni assms(1) have "reached p a = a # reached p (a + 2)"
      by (simp add: reached.simps [of p a])
    with mem have "a + 1 \<in> set (reached p (a + 2))" by simp
    then have "a + 2 \<le> a + 1" by (rule reached_ge)
    then show False by simp
  qed
qed

lemma demo_run_next_index:
  "next_index (demo_parser [''--name'', ''hello'', ''x'', ''--bogus'', ''y''] ''='' True) 0 = Some 2"
  "next_index (demo_parser [''--name'', ''hello'', ''x'', ''--bogus'', ''y''] ''='' True) 2 = Some 3"
  "next_index (demo_parser [''--name'', ''hello'', ''x'', ''--bogus'', ''y''] ''='' True) 3 = None"
  by (simp_all add: next_index_def demo_parser_fields demo_parser_get demo_options_def
      is_flag_iff parse_flag_def parse_flag_loop.simps parse_flag_inner.simps substr_def
      demo_flags_def flag_name_def set_value_String)

lemma demo_run_reached: "reached (demo_parser [''--name'', ''hello'', ''x'', ''--bogus'', ''y''] ''='' True) 0 = [0, 2, 3]"
proof -
  have "reached (demo_parser [''--name'', ''hello'', ''x'', ''--bogus'', ''y''] ''='' True) 3 = [3]"
    by (simp add: reached.simps [of _ 3] demo_run_next_index demo_parser_fields)
  then have "reached (demo_parser [''--name'', ''hello'', ''x'', ''--bogus'', ''y''] ''='' True) 2 = [2, 3]"
    by (simp add: reached.simps [of _ 2] demo_run_next_index demo_parser_fields)
  then show ?thesis
    by (simp add: reached.simps [of _ 0] demo_run_next_index demo_parser_fields)
qed

lemma demo_run_result:
  "parse_loop (demo_parser [''--name'', ''hello'', ''x'', ''--bogus'', ''y''] ''='' True) 0 =
     Some (\<lparr>ok = False, flag_id = ''bogus'', error = ''invalid flag id used''\<rparr>,
           (demo_parser [''--name'', ''hello'', ''x'', ''--bogus'', ''y''] ''='' True)\<lparr>m_flags := [flag_name\<lparr>data := DString ''hello'', triggered := True\<rparr>,
                             flag_num, flag_verbose],
                 m_flagless := [''x'']\<rparr>)"
proof -
  let ?p = "(demo_parser [''--name'', ''hello'', ''x'', ''--bogus'', ''y''] ''='' True)"
  let ?p1 = "?p\<lparr>m_flags := (m_flags ?p)[0 := snd (set_value (m_args ?p ! (0 + 1)) (m_flags ?p ! 0))]\<rparr>"
  let ?p2 = "?p1\<lparr>m_flagless := m_flagless ?p1 @ [m_args ?p1 ! 2]\<rparr>"
  have 1: "0 < length (m_args ?p)" by (simp add: demo_parser_fields)
  have 2: "is_flag (m_options ?p) (m_args ?p ! 0)"
    by (simp add: demo_parser_fields is_flag_iff demo_options_def)
  have 3: "parse_flag (m_options ?p) (m_args ?p ! 0) (length (flag_prefix (m_options ?p)))
             = Some (6, False)"
    by (simp add: demo_parser_fields demo_options_def parse_flag_def
        parse_flag_loop.simps parse_flag_inner.simps)
  have 4: "get ?p (substr (m_args ?p ! 0) (length (flag_prefix (m_options ?p)))
             (6 - length (flag_prefix (m_options ?p)))) = Some 0"
    by (simp add: demo_parser_fields demo_options_def substr_def demo_parser_get)
  have 5: "0 < length (m_flags ?p)" by (simp add: demo_parser_fields demo_flags_def)
  have 6: "type (m_flags ?p ! 0) \<noteq> Bool"
    by (simp add: demo_parser_fields demo_flags_def flag_name_def)
  have 7: "\<not> (False \<and> 6 + 1 < length (m_args ?p ! 0))" by simp
  have 8: "0 + 1 < length (m_args ?p)" by (simp add: demo_parser_fields)
  have sv': "set_value ''hello'' flag_name =
              (True, flag_name\<lparr>data := DString ''hello'', triggered := True\<rparr>)"
    by (simp add: set_value_String flag_name_def)
  then have sv: "set_value (m_args ?p ! (0 + 1)) (m_flags ?p ! 0) =
              (True, flag_name\<lparr>data := DString ''hello'', triggered := True\<rparr>)"
    by (simp add: demo_parser_fields demo_flags_def)
  have "parse_loop ?p 0 = parse_loop ?p1 (0 + 2)"
    using parse_loop_lookahead [OF 1 2 3 4 5 6 7 8]
    by (simp only: Let_def sv fst_conv snd_conv not_True_eq_False if_False)
  also have "\<dots> = parse_loop ?p1 2" by (simp only: add_0)
  also have "\<dots> = parse_loop ?p2 (2 + 1)"
  proof -
    have c1: "2 < length (m_args ?p1)" by (simp add: demo_parser_fields)
    have c2: "\<not> is_flag (m_options ?p1) (m_args ?p1 ! 2)"
      by (simp add: demo_parser_fields is_flag_iff demo_options_def)
    show ?thesis by (rule parse_loop_positional [OF c1 c2])
  qed
  also have "\<dots> = Some (\<lparr>ok = False, flag_id = ''bogus'', error = ''invalid flag id used''\<rparr>, ?p2)"
  proof -
    have d1: "2 + 1 < length (m_args ?p2)" by (simp add: demo_parser_fields)
    have d2: "is_flag (m_options ?p2) (m_args ?p2 ! (2 + 1))"
      by (simp add: demo_parser_fields is_flag_iff demo_options_def)
    have d3: "parse_flag (m_options ?p2) (m_args ?p2 ! (2 + 1)) (length (flag_prefix (m_options ?p2)))
             = Some (7, False)"
      by (simp add: demo_parser_fields demo_options_def parse_flag_def
        parse_flag_loop.simps parse_flag_inner.simps)
    have d4: "substr (m_args ?p2 ! (2 + 1)) (length (flag_prefix (m_options ?p2)))
             (7 - length (flag_prefix (m_options ?p2))) = ''bogus''"
      by (simp add: demo_parser_fields demo_options_def substr_def)
    have d5: "get ?p2 ''bogus'' = None"
      using demo_parser_get [of "[''--name'', ''hello'', ''x'', ''--bogus'', ''y'']" "''=''" True "''bogus''"]
      by (simp add: get_def)
    have d6: "strict_flags (m_options ?p2)" by (simp add: demo_parser_fields demo_options_def)
    from parse_loop_unknown [OF d1 d2 d3] d4 d5 d6 show ?thesis by simp
  qed
  finally show ?thesis
    by (simp add: sv' demo_parser_fields demo_flags_def)
qed

lemma switch_run_result:
  "parse_loop (switch_parser [''a'', ''--verbose'', ''b'']) 0 =
     Some (\<lparr>ok = True, flag_id = [], error = []\<rparr>,
           (switch_parser [''a'', ''--verbose'', ''b''])\<lparr>m_flags := [flag_verbose\<lparr>data := DBool True, triggered := True\<rparr>],
                 m_flagless := [''a'', ''b'']\<rparr>)"
proof -
  let ?p = "(switch_parser [''a'', ''--verbose'', ''b''])"
  let ?p1 = "?p\<lparr>m_flagless := m_flagless ?p @ [m_args ?p ! 0]\<rparr>"
  let ?p2 = "?p1\<lparr>m_flags := (m_flags ?p1)
                [0 := (m_flags ?p1 ! 0)\<lparr>data := DBool True, triggered := True\<rparr>]\<rparr>"
  let ?p3 = "?p2\<lparr>m_flagless := m_flagless ?p2 @ [m_args ?p2 ! 2]\<rparr>"
  let ?r = "\<lparr>ok = True, flag_id = [], error = []\<rparr>"
  have a1: "0 < length (m_args ?p)" by (simp add: switch_parser_fields)
  have a2: "\<not> is_flag (m_options ?p) (m_args ?p ! 0)"
    by (simp add: switch_parser_fields is_flag_iff demo_options_def)
  have "parse_loop ?p 0 = parse_loop ?p1 (0 + 1)" by (rule parse_loop_positional [OF a1 a2])
  then have "parse_loop ?p 0 = parse_loop ?p1 1" by simp
  also have "\<dots> = parse_loop ?p2 (1 + 1)"
  proof -
    have b1: "1 < length (m_args ?p1)" by (simp add: switch_parser_fields)
    have b2: "is_flag (m_options ?p1) (m_args ?p1 ! 1)"
      by (simp add: switch_parser_fields is_flag_iff demo_options_def)
    have b3: "parse_flag (m_options ?p1) (m_args ?p1 ! 1) (length (flag_prefix (m_options ?p1)))
             = Some (9, False)"
      by (simp add: switch_parser_fields demo_options_def parse_flag_def
        parse_flag_loop.simps parse_flag_inner.simps)
    have b4: "get ?p1 (substr (m_args ?p1 ! 1) (length (flag_prefix (m_options ?p1)))
             (9 - length (flag_prefix (m_options ?p1)))) = Some 0"
      using switch_parser_get [of "[''a'', ''--verbose'', ''b'']" "''verbose''"]
      by (simp add: switch_parser_fields demo_options_def substr_def get_def)
    have b5: "0 < length (m_flags ?p1)" by (simp add: switch_parser_fields)
    have b6: "type (m_flags ?p1 ! 0) = Bool" by (simp add: switch_parser_fields flag_verbose_def)
    show ?thesis by (rule parse_loop_bool [OF b1 b2 b3 b4 b5 b6])
  qed
  also have "\<dots> = parse_loop ?p2 2" by (simp only: one_add_one)
  also have "\<dots> = parse_loop ?p3 (2 + 1)"
  proof -
    have c1: "2 < length (m_args ?p2)" by (simp add: switch_parser_fields)
    have c2: "\<not> is_flag (m_options ?p2) (m_args ?p2 ! 2)"
      by (simp add: switch_parser_fields is_flag_iff demo_options_def)
    show ?thesis by (rule parse_loop_positional [OF c1 c2])
  qed
  also have "\<dots> = Some (?r, ?p3)"
    by (rule parse_loop_done) (simp add: switch_parser_fields)
  finally show ?thesis by (simp add: switch_parser_fields)
qed

section \<open>The claims\<close>

text \<open>
  C9. For every registered flag whose name and aliases do not collide with the keys of
  any other flag, a lookup by its name and a lookup by any of its aliases give the same
  flag identity, the position of that very flag in the store; keys are matched as exact
  texts, and a key that no flag declares resolves to nothing.
\<close>

theorem name_and_aliases_resolve_alike:
  assumes "i < length fs"
    and "\<forall>j < length fs. j \<noteq> i \<longrightarrow> keys (fs ! j) \<inter> keys (fs ! i) = {}"
  shows "get (register fs (new_Parser args opts)) (name (fs ! i)) = Some i
       \<and> (\<forall>al \<in> set (aliases (fs ! i)). get (register fs (new_Parser args opts)) al = Some i)
       \<and> m_flags (register fs (new_Parser args opts)) ! i = fs ! i
       \<and> (\<forall>k. (\<forall>f \<in> set fs. k \<notin> keys f) \<longrightarrow> get (register fs (new_Parser args opts)) k = None)"
proof -
  let ?p0 = "new_Parser args opts"
  have key: "get (register fs ?p0) k = Some i" if "k \<in> keys (fs ! i)" for k
  proof -
    have "m_table ?p0 k = None" by (simp add: new_Parser_def)
    moreover have "\<forall>j' < i. k \<notin> keys (fs ! j')"
    proof (intro allI impI)
      fix j' assume "j' < i"
      with assms have "keys (fs ! j') \<inter> keys (fs ! i) = {}" by simp
      with that show "k \<notin> keys (fs ! j')" by blast
    qed
    ultimately have "m_table (register fs ?p0) k = Some (length (m_flags ?p0) + i)"
      using assms(1) that by (intro register_first)
    then show ?thesis by (simp add: get_def new_Parser_def)
  qed
  have "get (register fs ?p0) (name (fs ! i)) = Some i"
    by (rule key) (simp add: keys_def)
  moreover have "\<forall>al \<in> set (aliases (fs ! i)). get (register fs ?p0) al = Some i"
    by (auto intro: key simp: keys_def)
  moreover have "m_flags (register fs ?p0) ! i = fs ! i"
    by (simp add: register_flags new_Parser_def)
  moreover have "\<forall>k. (\<forall>f \<in> set fs. k \<notin> keys f) \<longrightarrow> get (register fs ?p0) k = None"
    by (simp add: get_def register_absent new_Parser_def)
  ultimately show ?thesis by blast
qed


theorem name_and_aliases_resolve_alike_witness:
  "get (register demo_flags (new_Parser [] default_Options)) ''name'' = Some 0
   \<and> get (register demo_flags (new_Parser [] default_Options)) ''n'' = Some 0
   \<and> m_flags (register demo_flags (new_Parser [] default_Options)) ! 0 = flag_name
   \<and> get (register demo_flags (new_Parser [] default_Options)) ''N'' = None"
proof -
  have len: "(0::nat) < length demo_flags" by (simp add: demo_flags_def)
  have disj: "\<forall>j < length demo_flags. j \<noteq> 0 \<longrightarrow> keys (demo_flags ! j) \<inter> keys (demo_flags ! 0) = {}"
    by (simp add: demo_flags_def keys_def flag_name_def flag_num_def flag_verbose_def
        less_Suc_eq numeral_3_eq_3)
  have absent: "\<forall>f \<in> set demo_flags. ''N'' \<notin> keys f"
    by (simp add: demo_flags_def keys_def flag_name_def flag_num_def flag_verbose_def)
  from name_and_aliases_resolve_alike [OF len disj, of "[]" default_Options] absent
  show ?thesis by (simp add: demo_flags_def flag_name_def)
qed

text \<open>
  C4. When strict mode is on and the candidate name of a flag-like token does not resolve
  in the registry, parsing ends at once with \<open>ok = false\<close>, the candidate as
  \<open>flag_id\<close> and the error \<open>invalid flag id used\<close>. The parser is returned as it
  stood when the token was reached: no later token is processed, and the positional
  list and every flag keep what they had accumulated.
\<close>

theorem strict_unknown_flag_aborts:
  assumes "a < length (m_args p)"
    and "arg = m_args p ! a"
    and "prefix_end = length (flag_prefix (m_options p))"
    and "is_flag (m_options p) arg"
    and "parse_flag (m_options p) arg prefix_end = Some (sep_start, found_sep)"
    and "candidate = substr arg prefix_end (sep_start - prefix_end)"
    and "get p candidate = None"
    and "strict_flags (m_options p)"
  shows "parse_loop p a =
           Some (\<lparr>ok = False, flag_id = candidate, error = ''invalid flag id used''\<rparr>, p)"
  using assms parse_loop_unknown [of a p sep_start found_sep] by simp

theorem strict_unknown_flag_aborts_witness:
  "parse_loop (demo_parser [''pos'', ''--bogus'', ''--verbose''] ''='' True) 1 =
     Some (\<lparr>ok = False, flag_id = ''bogus'', error = ''invalid flag id used''\<rparr>,
           demo_parser [''pos'', ''--bogus'', ''--verbose''] ''='' True)"
proof -
  let ?p = "demo_parser [''pos'', ''--bogus'', ''--verbose''] ''='' True"
  have 1: "1 < length (m_args ?p)" by (simp add: demo_parser_fields)
  have 2: "is_flag (m_options ?p) (m_args ?p ! 1)"
    by (simp add: demo_parser_fields is_flag_iff demo_options_def)
  have 3: "parse_flag (m_options ?p) (m_args ?p ! 1) (length (flag_prefix (m_options ?p)))
             = Some (7, False)"
    by (simp add: demo_parser_fields demo_options_def parse_flag_def
        parse_flag_loop.simps parse_flag_inner.simps)
  have 4: "substr (m_args ?p ! 1) (length (flag_prefix (m_options ?p)))
             (7 - length (flag_prefix (m_options ?p))) = ''bogus''"
    by (simp add: demo_parser_fields demo_options_def substr_def)
  have 5: "get ?p ''bogus'' = None" by (simp add: demo_parser_get)
  have 6: "strict_flags (m_options ?p)" by (simp add: demo_parser_fields demo_options_def)
  from strict_unknown_flag_aborts [OF 1 refl refl 2 3 4 [symmetric] 5 6] show ?thesis .
qed

text \<open>
  C5. When strict mode is off and the candidate name of a flag-like token does not
  resolve in the registry, the token is skipped silently: the loop goes on at the next
  index with the parser untouched, so the token joins neither the positional list nor
  any flag; and when the skipped token was the last one, the run returns \<open>ok = true\<close>.
\<close>

theorem lenient_unknown_flag_skipped:
  assumes "a < length (m_args p)"
    and "arg = m_args p ! a"
    and "prefix_end = length (flag_prefix (m_options p))"
    and "is_flag (m_options p) arg"
    and "parse_flag (m_options p) arg prefix_end = Some (sep_start, found_sep)"
    and "candidate = substr arg prefix_end (sep_start - prefix_end)"
    and "get p candidate = None"
    and "\<not> strict_flags (m_options p)"
  shows "parse_loop p a = parse_loop p (a + 1)
       \<and> (a + 1 = length (m_args p) \<longrightarrow>
            parse_loop p a = Some (\<lparr>ok = True, flag_id = [], error = []\<rparr>, p))"
proof -
  from assms have step: "parse_loop p a = parse_loop p (a + 1)"
    using parse_loop_unknown [of a p sep_start found_sep] by simp
  moreover have "parse_loop p (a + 1) = Some (\<lparr>ok = True, flag_id = [], error = []\<rparr>, p)"
    if "a + 1 = length (m_args p)"
    using that by (intro parse_loop_done) simp
  ultimately show ?thesis by simp
qed

theorem lenient_unknown_flag_skipped_witness:
  "parse (demo_parser [''--bogus''] ''='' False) =
     Some (\<lparr>ok = True, flag_id = [], error = []\<rparr>, demo_parser [''--bogus''] ''='' False)
   \<and> m_flagless (demo_parser [''--bogus''] ''='' False) = []"
proof -
  let ?p = "demo_parser [''--bogus''] ''='' False"
  have 1: "0 < length (m_args ?p)" by (simp add: demo_parser_fields)
  have 2: "is_flag (m_options ?p) (m_args ?p ! 0)"
    by (simp add: demo_parser_fields is_flag_iff demo_options_def)
  have 3: "parse_flag (m_options ?p) (m_args ?p ! 0) (length (flag_prefix (m_options ?p)))
             = Some (7, False)"
    by (simp add: demo_parser_fields demo_options_def parse_flag_def
        parse_flag_loop.simps parse_flag_inner.simps)
  have 4: "substr (m_args ?p ! 0) (length (flag_prefix (m_options ?p)))
             (7 - length (flag_prefix (m_options ?p))) = ''bogus''"
    by (simp add: demo_parser_fields demo_options_def substr_def)
  have 5: "get ?p ''bogus'' = None" by (simp add: demo_parser_get)
  have 6: "\<not> strict_flags (m_options ?p)" by (simp add: demo_parser_fields demo_options_def)
  have 7: "0 + 1 = length (m_args ?p)" by (simp add: demo_parser_fields)
  from lenient_unknown_flag_skipped [OF 1 refl refl 2 3 4 [symmetric] 5 6] 7
  have "parse_loop ?p 0 = Some (\<lparr>ok = True, flag_id = [], error = []\<rparr>, ?p)" by blast
  then show ?thesis by (simp add: parse_def demo_parser_fields)
qed

text \<open>
  C7. A token that resolves to a Boolean flag sets that flag's value to \<open>true\<close> and
  marks it triggered, whatever follows the name inside the token; no value is taken from
  the next token, and the loop goes on at the very next index. Given
  \<open>--verbose extra\<close>, the token \<open>extra\<close> ends up in the positional list.
\<close>

theorem boolean_flag_takes_no_value:
  assumes "a < length (m_args p)"
    and "arg = m_args p ! a"
    and "prefix_end = length (flag_prefix (m_options p))"
    and "is_flag (m_options p) arg"
    and "parse_flag (m_options p) arg prefix_end = Some (sep_start, found_sep)"
    and "get p (substr arg prefix_end (sep_start - prefix_end)) = Some flag"
    and "flag < length (m_flags p)"
    and "type (m_flags p ! flag) = Bool"
  shows "parse_loop p a =
           parse_loop
             (p\<lparr>m_flags := (m_flags p)
                  [flag := (m_flags p ! flag)\<lparr>data := DBool True, triggered := True\<rparr>]\<rparr>)
             (a + 1)"
  using assms parse_loop_bool [of a p sep_start found_sep flag] by simp

theorem boolean_flag_takes_no_value_witness:
  "parse (demo_parser [''--verbose'', ''extra''] ''='' True) =
     Some (\<lparr>ok = True, flag_id = [], error = []\<rparr>,
           (demo_parser [''--verbose'', ''extra''] ''='' True)
             \<lparr>m_flags := [flag_name, flag_num, flag_verbose\<lparr>data := DBool True, triggered := True\<rparr>],
              m_flagless := [''extra'']\<rparr>)"
proof -
  let ?p = "demo_parser [''--verbose'', ''extra''] ''='' True"
  let ?p1 = "?p\<lparr>m_flags := (m_flags ?p)
                  [2 := (m_flags ?p ! 2)\<lparr>data := DBool True, triggered := True\<rparr>]\<rparr>"
  have 1: "0 < length (m_args ?p)" by (simp add: demo_parser_fields)
  have 2: "is_flag (m_options ?p) (m_args ?p ! 0)"
    by (simp add: demo_parser_fields is_flag_iff demo_options_def)
  have 3: "parse_flag (m_options ?p) (m_args ?p ! 0) (length (flag_prefix (m_options ?p)))
             = Some (9, False)"
    by (simp add: demo_parser_fields demo_options_def parse_flag_def
        parse_flag_loop.simps parse_flag_inner.simps)
  have 4: "get ?p (substr (m_args ?p ! 0) (length (flag_prefix (m_options ?p)))
             (9 - length (flag_prefix (m_options ?p)))) = Some 2"
    by (simp add: demo_parser_fields demo_options_def substr_def demo_parser_get)
  have 5: "2 < length (m_flags ?p)" by (simp add: demo_parser_fields demo_flags_def)
  have 6: "type (m_flags ?p ! 2) = Bool"
    by (simp add: demo_parser_fields demo_flags_def flag_verbose_def)
  have "parse_loop ?p 0 = parse_loop ?p1 (0 + 1)"
    by (rule boolean_flag_takes_no_value [OF 1 refl refl 2 3 4 5 6])
  also have "\<dots> = parse_loop (?p1\<lparr>m_flagless := m_flagless ?p1 @ [m_args ?p1 ! 1]\<rparr>) (1 + 1)"
    using parse_loop_positional [of 1 ?p1]
    by (simp add: demo_parser_fields is_flag_iff demo_options_def)
  also have "\<dots> = Some (\<lparr>ok = True, flag_id = [], error = []\<rparr>,
                       ?p1\<lparr>m_flagless := m_flagless ?p1 @ [m_args ?p1 ! 1]\<rparr>)"
    by (rule parse_loop_done) (simp add: demo_parser_fields)
  finally show ?thesis
    by (simp add: parse_def demo_parser_fields demo_flags_def)
qed

text \<open>
  C6. At a token that resolves to a non-Boolean flag and carries no inline value (the
  tokenizer found no separator, or no character follows it inside the token): when a
  next token exists, the value source is that whole token, flag-shaped or not, and the
  loop goes on two indices further; when there is none, parsing ends with
  \<open>ok = false\<close>, the candidate as \<open>flag_id\<close> and the error
  \<open>could not set flag value\<close>.
\<close>

theorem lookahead_value_or_failure:
  assumes "a < length (m_args p)"
    and "arg = m_args p ! a"
    and "prefix_end = length (flag_prefix (m_options p))"
    and "is_flag (m_options p) arg"
    and "parse_flag (m_options p) arg prefix_end = Some (sep_start, found_sep)"
    and "candidate = substr arg prefix_end (sep_start - prefix_end)"
    and "get p candidate = Some flag"
    and "flag < length (m_flags p)"
    and "type (m_flags p ! flag) \<noteq> Bool"
    and "\<not> (found_sep \<and> sep_start + 1 < length arg)"
  shows "(a + 1 < length (m_args p) \<longrightarrow>
            parse_loop p a =
              (if fst (set_value (m_args p ! (a + 1)) (m_flags p ! flag)) then
                 parse_loop
                   (p\<lparr>m_flags := (m_flags p)
                        [flag := snd (set_value (m_args p ! (a + 1)) (m_flags p ! flag))]\<rparr>)
                   (a + 2)
               else
                 Some (\<lparr>ok = False, flag_id = candidate, error = ''could not set flag value''\<rparr>,
                       p\<lparr>m_flags := (m_flags p)
                            [flag := snd (set_value (m_args p ! (a + 1)) (m_flags p ! flag))]\<rparr>)))
       \<and> (\<not> a + 1 < length (m_args p) \<longrightarrow>
            parse_loop p a =
              Some (\<lparr>ok = False, flag_id = candidate, error = ''could not set flag value''\<rparr>, p))"
proof (intro conjI impI)
  assume "a + 1 < length (m_args p)"
  with assms parse_loop_lookahead [of a p sep_start found_sep flag]
  show "parse_loop p a =
          (if fst (set_value (m_args p ! (a + 1)) (m_flags p ! flag)) then
             parse_loop
               (p\<lparr>m_flags := (m_flags p)
                    [flag := snd (set_value (m_args p ! (a + 1)) (m_flags p ! flag))]\<rparr>)
               (a + 2)
           else
             Some (\<lparr>ok = False, flag_id = candidate, error = ''could not set flag value''\<rparr>,
                   p\<lparr>m_flags := (m_flags p)
                        [flag := snd (set_value (m_args p ! (a + 1)) (m_flags p ! flag))]\<rparr>))"
    by (simp add: Let_def)
next
  assume "\<not> a + 1 < length (m_args p)"
  with assms parse_loop_no_value [of a p sep_start found_sep flag]
  show "parse_loop p a =
          Some (\<lparr>ok = False, flag_id = candidate, error = ''could not set flag value''\<rparr>, p)"
    by simp
qed

theorem lookahead_value_or_failure_witness:
  "parse (demo_parser [''--name'', ''--verbose''] ''='' True) =
     Some (\<lparr>ok = True, flag_id = [], error = []\<rparr>,
           (demo_parser [''--name'', ''--verbose''] ''='' True)
             \<lparr>m_flags := [flag_name\<lparr>data := DString ''--verbose'', triggered := True\<rparr>,
                          flag_num, flag_verbose]\<rparr>)
   \<and> parse (demo_parser [''--num''] ''='' True) =
     Some (\<lparr>ok = False, flag_id = ''num'', error = ''could not set flag value''\<rparr>,
           demo_parser [''--num''] ''='' True)"
proof -
  let ?p = "demo_parser [''--name'', ''--verbose''] ''='' True"
  let ?q = "demo_parser [''--num''] ''='' True"
  let ?p1 = "?p\<lparr>m_flags := (m_flags ?p)[0 := snd (set_value (m_args ?p ! (0 + 1)) (m_flags ?p ! 0))]\<rparr>"
  have p1: "0 < length (m_args ?p)" by (simp add: demo_parser_fields)
  have p2: "is_flag (m_options ?p) (m_args ?p ! 0)"
    by (simp add: demo_parser_fields is_flag_iff demo_options_def)
  have p3: "parse_flag (m_options ?p) (m_args ?p ! 0) (length (flag_prefix (m_options ?p)))
              = Some (6, False)"
    by (simp add: demo_parser_fields demo_options_def parse_flag_def
        parse_flag_loop.simps parse_flag_inner.simps)
  have p4: "get ?p (substr (m_args ?p ! 0) (length (flag_prefix (m_options ?p)))
              (6 - length (flag_prefix (m_options ?p)))) = Some 0"
    by (simp add: demo_parser_fields demo_options_def substr_def demo_parser_get)
  have p5: "0 < length (m_flags ?p)" by (simp add: demo_parser_fields demo_flags_def)
  have p6: "type (m_flags ?p ! 0) \<noteq> Bool"
    by (simp add: demo_parser_fields demo_flags_def flag_name_def)
  have p7: "\<not> (False \<and> 6 + 1 < length (m_args ?p ! 0))" by simp
  have p8: "0 + 1 < length (m_args ?p)" by (simp add: demo_parser_fields)
  have sv: "set_value (m_args ?p ! (0 + 1)) (m_flags ?p ! 0) =
              (True, flag_name\<lparr>data := DString ''--verbose'', triggered := True\<rparr>)"
    by (simp add: demo_parser_fields demo_flags_def set_value_String flag_name_def)
  have sv': "set_value ''--verbose'' flag_name =
              (True, flag_name\<lparr>data := DString ''--verbose'', triggered := True\<rparr>)"
    by (simp add: set_value_String flag_name_def)
  from lookahead_value_or_failure [OF p1 refl refl p2 p3 refl p4 p5 p6 p7] p8
  have "parse_loop ?p 0 = parse_loop ?p1 (0 + 2)"
    by (simp only: sv fst_conv snd_conv if_True)
  also have "\<dots> = Some (\<lparr>ok = True, flag_id = [], error = []\<rparr>, ?p1)"
    by (rule parse_loop_done) (simp add: demo_parser_fields)
  finally have first: "parse ?p = Some (\<lparr>ok = True, flag_id = [], error = []\<rparr>,
      ?p\<lparr>m_flags := [flag_name\<lparr>data := DString ''--verbose'', triggered := True\<rparr>,
                          flag_num, flag_verbose]\<rparr>)"
    by (simp add: parse_def sv' demo_parser_fields demo_flags_def)
  have q1: "0 < length (m_args ?q)" by (simp add: demo_parser_fields)
  have q2: "is_flag (m_options ?q) (m_args ?q ! 0)"
    by (simp add: demo_parser_fields is_flag_iff demo_options_def)
  have q3: "parse_flag (m_options ?q) (m_args ?q ! 0) (length (flag_prefix (m_options ?q)))
              = Some (5, False)"
    by (simp add: demo_parser_fields demo_options_def parse_flag_def
        parse_flag_loop.simps parse_flag_inner.simps)
  have q4: "substr (m_args ?q ! 0) (length (flag_prefix (m_options ?q)))
              (5 - length (flag_prefix (m_options ?q))) = ''num''"
    by (simp add: demo_parser_fields demo_options_def substr_def)
  have q5: "get ?q ''num'' = Some 1" by (simp add: demo_parser_get)
  have q6: "1 < length (m_flags ?q)" by (simp add: demo_parser_fields demo_flags_def)
  have q7: "type (m_flags ?q ! 1) \<noteq> Bool"
    by (simp add: demo_parser_fields demo_flags_def flag_num_def)
  have q8: "\<not> (False \<and> 5 + 1 < length (m_args ?q ! 0))" by simp
  have q9: "\<not> 0 + 1 < length (m_args ?q)" by (simp add: demo_parser_fields)
  from lookahead_value_or_failure [OF q1 refl refl q2 q3 q4 [symmetric] q5 q6 q7 q8] q9
  have "parse_loop ?q 0 =
      Some (\<lparr>ok = False, flag_id = ''num'', error = ''could not set flag value''\<rparr>, ?q)"
    by blast
  with first show ?thesis by (simp add: parse_def)
qed

text \<open>
  C10. When the value text of a Number flag fails to coerce, \<open>set_value\<close> leaves the
  flag as it was, and \<open>parse\<close> returns \<open>ok = false\<close> with the error
  \<open>could not set flag value\<close> and the parser unchanged: the offending flag still has
  the data and the triggered state it had before the token was processed.
\<close>

theorem failed_coercion_leaves_flag:
  assumes "a < length (m_args p)"
    and "arg = m_args p ! a"
    and "prefix_end = length (flag_prefix (m_options p))"
    and "is_flag (m_options p) arg"
    and "parse_flag (m_options p) arg prefix_end = Some (sep_start, found_sep)"
    and "candidate = substr arg prefix_end (sep_start - prefix_end)"
    and "get p candidate = Some flag"
    and "flag < length (m_flags p)"
    and "type (m_flags p ! flag) = Number"
    and "(found_sep \<and> sep_start + 1 < length arg) \<or> a + 1 < length (m_args p)"
    and "value_str = (if found_sep \<and> sep_start + 1 < length arg
                      then drop (sep_start + 1) arg else m_args p ! (a + 1))"
    and "ec (fst (from_chars value_str (Finite 0))) \<noteq> errc_none"
  shows "set_value value_str (m_flags p ! flag) = (False, m_flags p ! flag)
       \<and> parse_loop p a =
           Some (\<lparr>ok = False, flag_id = candidate, error = ''could not set flag value''\<rparr>, p)"
proof -
  from assms have sv: "set_value value_str (m_flags p ! flag) = (False, m_flags p ! flag)"
    by (simp add: set_value_Number)
  from assms have nb: "type (m_flags p ! flag) \<noteq> Bool" by simp
  from assms(1,2,3,4,5,6,7,8,10,11) nb
    parse_loop_value [of a p sep_start found_sep flag value_str]
  have "parse_loop p a =
      (if fst (set_value value_str (m_flags p ! flag)) then
        parse_loop (p\<lparr>m_flags := (m_flags p)[flag := snd (set_value value_str (m_flags p ! flag))]\<rparr>)
          (if found_sep \<and> sep_start + 1 < length (m_args p ! a) then a + 1 else a + 2)
      else
        Some (\<lparr>ok = False, flag_id = candidate, error = ''could not set flag value''\<rparr>,
              p\<lparr>m_flags := (m_flags p)[flag := snd (set_value value_str (m_flags p ! flag))]\<rparr>))"
    by simp
  with sv show ?thesis by simp
qed

theorem failed_coercion_leaves_flag_witness:
  "parse_loop
     ((demo_parser [''--num=7'', ''--num'', ''abc''] ''='' True)
        \<lparr>m_flags := [flag_name, flag_num\<lparr>data := DDouble (Finite 7), triggered := True\<rparr>,
                     flag_verbose]\<rparr>) 1 =
     Some (\<lparr>ok = False, flag_id = ''num'', error = ''could not set flag value''\<rparr>,
           (demo_parser [''--num=7'', ''--num'', ''abc''] ''='' True)
             \<lparr>m_flags := [flag_name, flag_num\<lparr>data := DDouble (Finite 7), triggered := True\<rparr>,
                          flag_verbose]\<rparr>)"
proof -
  let ?p = "(demo_parser [''--num=7'', ''--num'', ''abc''] ''='' True)
        \<lparr>m_flags := [flag_name, flag_num\<lparr>data := DDouble (Finite 7), triggered := True\<rparr>,
                     flag_verbose]\<rparr>"
  have 1: "1 < length (m_args ?p)" by (simp add: demo_parser_fields)
  have 2: "is_flag (m_options ?p) (m_args ?p ! 1)"
    by (simp add: demo_parser_fields is_flag_iff demo_options_def)
  have 3: "parse_flag (m_options ?p) (m_args ?p ! 1) (length (flag_prefix (m_options ?p)))
             = Some (5, False)"
    by (simp add: demo_parser_fields demo_options_def parse_flag_def
        parse_flag_loop.simps parse_flag_inner.simps)
  have 4: "substr (m_args ?p ! 1) (length (flag_prefix (m_options ?p)))
             (5 - length (flag_prefix (m_options ?p))) = ''num''"
    by (simp add: demo_parser_fields demo_options_def substr_def)
  have 5: "get ?p ''num'' = Some 1"
    using demo_parser_get [of "[''--num=7'', ''--num'', ''abc'']" "''=''" True ] by (simp add: get_def)
  have 6: "1 < length (m_flags ?p)" by simp
  have 7: "type (m_flags ?p ! 1) = Number" by (simp add: flag_num_def)
  have 8: "(False \<and> 5 + 1 < length (m_args ?p ! 1)) \<or> 1 + 1 < length (m_args ?p)"
    by (simp add: demo_parser_fields)
  have 9: "''abc'' = (if False \<and> 5 + 1 < length (m_args ?p ! 1)
                      then drop (5 + 1) (m_args ?p ! 1) else m_args ?p ! (1 + 1))"
    by (simp add: demo_parser_fields)
  have 10: "ec (fst (from_chars ''abc'' (Finite 0))) \<noteq> errc_none"
    by (simp add: from_chars_abc)
  from failed_coercion_leaves_flag [OF 1 refl refl 2 3 4 [symmetric] 5 6 7 8 9 10]
  show ?thesis by blast
qed

text \<open>
  C2, as the claim states it, fails: the value text \<open>3.14xyz\<close> is accepted, and the
  flag stores 3.14.
\<close>

theorem number_trailing_garbage_counterexample:
  "parse (demo_parser [''--num=3.14xyz''] ''='' True) =
     Some (\<lparr>ok = True, flag_id = [], error = []\<rparr>,
           (demo_parser [''--num=3.14xyz''] ''='' True)
             \<lparr>m_flags := [flag_name,
                          flag_num\<lparr>data := DDouble (Finite (157 / 50)), triggered := True\<rparr>,
                          flag_verbose]\<rparr>)"
proof -
  let ?p = "demo_parser [''--num=3.14xyz''] ''='' True"
  let ?v = "''3.14xyz''"
  let ?p1 = "?p\<lparr>m_flags := (m_flags ?p)[1 := snd (set_value ?v (m_flags ?p ! 1))]\<rparr>"
  have 1: "0 < length (m_args ?p)" by (simp add: demo_parser_fields)
  have 2: "is_flag (m_options ?p) (m_args ?p ! 0)"
    by (simp add: demo_parser_fields is_flag_iff demo_options_def)
  have 3: "parse_flag (m_options ?p) (m_args ?p ! 0) (length (flag_prefix (m_options ?p)))
             = Some (5, True)"
    by (simp add: demo_parser_fields demo_options_def parse_flag_def
        parse_flag_loop.simps parse_flag_inner.simps)
  have 4: "get ?p (substr (m_args ?p ! 0) (length (flag_prefix (m_options ?p)))
             (5 - length (flag_prefix (m_options ?p)))) = Some 1"
    by (simp add: demo_parser_fields demo_options_def substr_def demo_parser_get)
  have 5: "1 < length (m_flags ?p)" by (simp add: demo_parser_fields demo_flags_def)
  have 6: "type (m_flags ?p ! 1) \<noteq> Bool"
    by (simp add: demo_parser_fields demo_flags_def flag_num_def)
  have 7: "(True \<and> 5 + 1 < length (m_args ?p ! 0)) \<or> 0 + 1 < length (m_args ?p)"
    by (simp add: demo_parser_fields)
  have 8: "?v = (if True \<and> 5 + 1 < length (m_args ?p ! 0)
                 then drop (5 + 1) (m_args ?p ! 0) else m_args ?p ! (0 + 1))"
    by (simp add: demo_parser_fields)
  have sv': "set_value ?v flag_num =
              (True, flag_num\<lparr>data := DDouble (Finite (157 / 50)), triggered := True\<rparr>)"
    by (simp add: set_value_Number flag_num_def from_chars_3_14xyz)
  then have sv: "set_value ?v (m_flags ?p ! 1) =
              (True, flag_num\<lparr>data := DDouble (Finite (157 / 50)), triggered := True\<rparr>)"
    by (simp add: demo_parser_fields demo_flags_def)
  have c: "(True \<and> 5 + 1 < length (m_args ?p ! 0)) = True"
    by (simp add: demo_parser_fields)
  have "parse_loop ?p 0 = parse_loop ?p1 (0 + 1)"
    using parse_loop_value [OF 1 2 3 4 5 6 7 8]
    by (simp only: sv c fst_conv snd_conv if_True)
  also have "\<dots> = Some (\<lparr>ok = True, flag_id = [], error = []\<rparr>, ?p1)"
    by (rule parse_loop_done) (simp add: demo_parser_fields)
  finally show ?thesis
    by (simp add: parse_def sv' demo_parser_fields demo_flags_def)
qed

text \<open>
  C2, amended. For every Number-kind flag, coercion reads the value text with
  \<open>from_chars\<close> and succeeds exactly when \<open>from_chars\<close> reports no error; how much
  of the text was read is not tested. When it reports none, the flag stores the number
  read and is triggered, and the loop goes on after the tokens consumed. When it reports
  an error, \<open>parse\<close> returns \<open>ok = false\<close> with the flag's matched id and the error
  \<open>could not set flag value\<close>. Value text that begins with whitespace is an error. A
  digit string in range that is followed by other text, trailing whitespace included, is
  no error: the digits are the number stored.
\<close>

theorem number_coercion_tests_error_code_only:
  assumes "a < length (m_args p)"
    and "arg = m_args p ! a"
    and "prefix_end = length (flag_prefix (m_options p))"
    and "is_flag (m_options p) arg"
    and "parse_flag (m_options p) arg prefix_end = Some (sep_start, found_sep)"
    and "candidate = substr arg prefix_end (sep_start - prefix_end)"
    and "get p candidate = Some flag"
    and "flag < length (m_flags p)"
    and "type (m_flags p ! flag) = Number"
    and "(found_sep \<and> sep_start + 1 < length arg) \<or> a + 1 < length (m_args p)"
    and "value_str = (if found_sep \<and> sep_start + 1 < length arg
                      then drop (sep_start + 1) arg else m_args p ! (a + 1))"
  shows "(ec (fst (from_chars value_str (Finite 0))) = errc_none \<longrightarrow>
            parse_loop p a =
              parse_loop
                (p\<lparr>m_flags := (m_flags p)
                     [flag := (m_flags p ! flag)
                        \<lparr>data := DDouble (snd (from_chars value_str (Finite 0))),
                         triggered := True\<rparr>]\<rparr>)
                (if found_sep \<and> sep_start + 1 < length arg then a + 1 else a + 2))
       \<and> (ec (fst (from_chars value_str (Finite 0))) \<noteq> errc_none \<longrightarrow>
            parse_loop p a =
              Some (\<lparr>ok = False, flag_id = candidate, error = ''could not set flag value''\<rparr>, p))
       \<and> (\<forall>c t. value_str = c # t \<and> is_space c \<longrightarrow>
            ec (fst (from_chars value_str (Finite 0))) = invalid_argument)
       \<and> (\<forall>ds g. value_str = ds @ g \<and> ds \<noteq> [] \<and> (\<forall>c \<in> set ds. is_digit c)
              \<and> (g \<noteq> [] \<longrightarrow> \<not> is_digit (hd g) \<and> hd g \<notin> {CHR ''.'', CHR ''e'', CHR ''E''})
              \<and> int (digits_value ds) < 2 ^ 1024 - 2 ^ 970 \<longrightarrow>
            from_chars value_str (Finite 0) =
              (\<lparr>ptr = length ds, ec = errc_none\<rparr>, Finite (of_nat (digits_value ds))))"
proof -
  from assms have nb: "type (m_flags p ! flag) \<noteq> Bool" by simp
  from assms(1,2,3,4,5,6,7,8,10,11) nb
    parse_loop_value [of a p sep_start found_sep flag value_str]
  have step: "parse_loop p a =
      (if fst (set_value value_str (m_flags p ! flag)) then
        parse_loop (p\<lparr>m_flags := (m_flags p)[flag := snd (set_value value_str (m_flags p ! flag))]\<rparr>)
          (if found_sep \<and> sep_start + 1 < length arg then a + 1 else a + 2)
      else
        Some (\<lparr>ok = False, flag_id = candidate, error = ''could not set flag value''\<rparr>,
              p\<lparr>m_flags := (m_flags p)[flag := snd (set_value value_str (m_flags p ! flag))]\<rparr>))"
    by simp
  have good: "parse_loop p a =
      parse_loop
        (p\<lparr>m_flags := (m_flags p)
             [flag := (m_flags p ! flag)
                \<lparr>data := DDouble (snd (from_chars value_str (Finite 0))), triggered := True\<rparr>]\<rparr>)
        (if found_sep \<and> sep_start + 1 < length arg then a + 1 else a + 2)"
    if "ec (fst (from_chars value_str (Finite 0))) = errc_none"
    using that step assms(9) by (simp add: set_value_Number)
  have bad: "parse_loop p a =
      Some (\<lparr>ok = False, flag_id = candidate, error = ''could not set flag value''\<rparr>, p)"
    if "ec (fst (from_chars value_str (Finite 0))) \<noteq> errc_none"
    using that step assms(9) by (simp add: set_value_Number)
  have ws: "\<forall>c t. value_str = c # t \<and> is_space c \<longrightarrow>
      ec (fst (from_chars value_str (Finite 0))) = invalid_argument"
    by (auto simp: from_chars_leading_space)
  have digits: "\<forall>ds g. value_str = ds @ g \<and> ds \<noteq> [] \<and> (\<forall>c \<in> set ds. is_digit c)
              \<and> (g \<noteq> [] \<longrightarrow> \<not> is_digit (hd g) \<and> hd g \<notin> {CHR ''.'', CHR ''e'', CHR ''E''})
              \<and> int (digits_value ds) < 2 ^ 1024 - 2 ^ 970 \<longrightarrow>
            from_chars value_str (Finite 0) =
              (\<lparr>ptr = length ds, ec = errc_none\<rparr>, Finite (of_nat (digits_value ds)))"
  proof (intro allI impI)
    fix ds g
    assume h: "value_str = ds @ g \<and> ds \<noteq> [] \<and> (\<forall>c \<in> set ds. is_digit c)
              \<and> (g \<noteq> [] \<longrightarrow> \<not> is_digit (hd g) \<and> hd g \<notin> {CHR ''.'', CHR ''e'', CHR ''E''})
              \<and> int (digits_value ds) < 2 ^ 1024 - 2 ^ 970"
    then have "from_chars (ds @ g) (Finite 0) =
        (\<lparr>ptr = length ds, ec = errc_none\<rparr>, Finite (of_nat (digits_value ds)))"
      by (intro from_chars_digits_then_text) blast+
    with h show "from_chars value_str (Finite 0) =
        (\<lparr>ptr = length ds, ec = errc_none\<rparr>, Finite (of_nat (digits_value ds)))"
      by simp
  qed
  from good bad ws digits show ?thesis by blast
qed

theorem number_coercion_tests_error_code_only_witness:
  "parse (demo_parser [''--num=42 ''] ''='' True) =
     Some (\<lparr>ok = True, flag_id = [], error = []\<rparr>,
           (demo_parser [''--num=42 ''] ''='' True)
             \<lparr>m_flags := [flag_name, flag_num\<lparr>data := DDouble (Finite 42), triggered := True\<rparr>,
                          flag_verbose]\<rparr>)
   \<and> parse (demo_parser [''--num'', '' 42''] ''='' True) =
     Some (\<lparr>ok = False, flag_id = ''num'', error = ''could not set flag value''\<rparr>,
           demo_parser [''--num'', '' 42''] ''='' True)"
proof -
  let ?p = "demo_parser [''--num=42 ''] ''='' True"
  let ?q = "demo_parser [''--num'', '' 42''] ''='' True"
  have p1: "0 < length (m_args ?p)" by (simp add: demo_parser_fields)
  have p2: "is_flag (m_options ?p) (m_args ?p ! 0)"
    by (simp add: demo_parser_fields is_flag_iff demo_options_def)
  have p3: "parse_flag (m_options ?p) (m_args ?p ! 0) (length (flag_prefix (m_options ?p)))
              = Some (5, True)"
    by (simp add: demo_parser_fields demo_options_def parse_flag_def
        parse_flag_loop.simps parse_flag_inner.simps)
  have p4: "substr (m_args ?p ! 0) (length (flag_prefix (m_options ?p)))
              (5 - length (flag_prefix (m_options ?p))) = ''num''"
    by (simp add: demo_parser_fields demo_options_def substr_def)
  have p5: "get ?p ''num'' = Some 1" by (simp add: demo_parser_get)
  have p6: "1 < length (m_flags ?p)" by (simp add: demo_parser_fields demo_flags_def)
  have p7: "type (m_flags ?p ! 1) = Number"
    by (simp add: demo_parser_fields demo_flags_def flag_num_def)
  have p8: "(True \<and> 5 + 1 < length (m_args ?p ! 0)) \<or> 0 + 1 < length (m_args ?p)"
    by (simp add: demo_parser_fields)
  have p9: "''42 '' = (if True \<and> 5 + 1 < length (m_args ?p ! 0)
                       then drop (5 + 1) (m_args ?p ! 0) else m_args ?p ! (0 + 1))"
    by (simp add: demo_parser_fields)
  note P = number_coercion_tests_error_code_only [OF p1 refl refl p2 p3 p4 [symmetric] p5 p6 p7 p8 p9]
  have split: "''42 '' = ''42'' @ '' '' \<and> ''42'' \<noteq> [] \<and> (\<forall>c \<in> set ''42''. is_digit c)
      \<and> ('' '' \<noteq> [] \<longrightarrow> \<not> is_digit (hd '' '') \<and> hd '' '' \<notin> {CHR ''.'', CHR ''e'', CHR ''E''})
      \<and> int (digits_value ''42'') < 2 ^ 1024 - 2 ^ 970"
    by (simp add: is_digit_def digits_value_def digit_value_def)
  from P split have fc: "from_chars ''42 '' (Finite 0) =
      (\<lparr>ptr = length ''42'', ec = errc_none\<rparr>, Finite (of_nat (digits_value ''42'')))"
    by blast
  then have fc': "from_chars ''42 '' (Finite 0) = (\<lparr>ptr = 2, ec = errc_none\<rparr>, Finite 42)"
    by (simp add: digits_value_def digit_value_def)
  then have "ec (fst (from_chars ''42 '' (Finite 0))) = errc_none" by simp
  with P have "parse_loop ?p 0 =
      parse_loop
        (?p\<lparr>m_flags := (m_flags ?p)
             [1 := (m_flags ?p ! 1)
                \<lparr>data := DDouble (snd (from_chars ''42 '' (Finite 0))), triggered := True\<rparr>]\<rparr>)
        (if True \<and> 5 + 1 < length (m_args ?p ! 0) then 0 + 1 else 0 + 2)"
    by blast
  also have "\<dots> = Some (\<lparr>ok = True, flag_id = [], error = []\<rparr>,
        ?p\<lparr>m_flags := (m_flags ?p)
             [1 := (m_flags ?p ! 1)
                \<lparr>data := DDouble (snd (from_chars ''42 '' (Finite 0))), triggered := True\<rparr>]\<rparr>)"
    by (rule parse_loop_done) (simp add: demo_parser_fields)
  finally have first: "parse ?p = Some (\<lparr>ok = True, flag_id = [], error = []\<rparr>,
      ?p\<lparr>m_flags := [flag_name, flag_num\<lparr>data := DDouble (Finite 42), triggered := True\<rparr>,
                     flag_verbose]\<rparr>)"
    by (simp add: parse_def fc' demo_parser_fields demo_flags_def)
  have q1: "0 < length (m_args ?q)" by (simp add: demo_parser_fields)
  have q2: "is_flag (m_options ?q) (m_args ?q ! 0)"
    by (simp add: demo_parser_fields is_flag_iff demo_options_def)
  have q3: "parse_flag (m_options ?q) (m_args ?q ! 0) (length (flag_prefix (m_options ?q)))
              = Some (5, False)"
    by (simp add: demo_parser_fields demo_options_def parse_flag_def
        parse_flag_loop.simps parse_flag_inner.simps)
  have q4: "substr (m_args ?q ! 0) (length (flag_prefix (m_options ?q)))
              (5 - length (flag_prefix (m_options ?q))) = ''num''"
    by (simp add: demo_parser_fields demo_options_def substr_def)
  have q5: "get ?q ''num'' = Some 1" by (simp add: demo_parser_get)
  have q6: "1 < length (m_flags ?q)" by (simp add: demo_parser_fields demo_flags_def)
  have q7: "type (m_flags ?q ! 1) = Number"
    by (simp add: demo_parser_fields demo_flags_def flag_num_def)
  have q8: "(False \<and> 5 + 1 < length (m_args ?q ! 0)) \<or> 0 + 1 < length (m_args ?q)"
    by (simp add: demo_parser_fields)
  have q9: "'' 42'' = (if False \<and> 5 + 1 < length (m_args ?q ! 0)
                       then drop (5 + 1) (m_args ?q ! 0) else m_args ?q ! (0 + 1))"
    by (simp add: demo_parser_fields)
  note Q = number_coercion_tests_error_code_only [OF q1 refl refl q2 q3 q4 [symmetric] q5 q6 q7 q8 q9]
  have "'' 42'' = CHR '' '' # ''42'' \<and> is_space CHR '' ''" by (simp add: is_space_def)
  with Q have "ec (fst (from_chars '' 42'' (Finite 0))) = invalid_argument" by blast
  then have "ec (fst (from_chars '' 42'' (Finite 0))) \<noteq> errc_none" by simp
  with Q have "parse_loop ?q 0 =
      Some (\<lparr>ok = False, flag_id = ''num'', error = ''could not set flag value''\<rparr>, ?q)"
    by blast
  with first show ?thesis by (simp add: parse_def)
qed

text \<open>
  C1, as the claim states it, fails: with the string flag \<open>name\<close> and separator
  \<open>=\<close>, the single token \<open>--name=\<close> makes \<open>parse\<close> fail, and the flag is
  left untouched.
\<close>

theorem trailing_separator_counterexample:
  "parse (demo_parser [''--name=''] ''='' True) =
     Some (\<lparr>ok = False, flag_id = ''name'', error = ''could not set flag value''\<rparr>,
           demo_parser [''--name=''] ''='' True)"
proof -
  let ?p = "demo_parser [''--name=''] ''='' True"
  have 1: "0 < length (m_args ?p)" by (simp add: demo_parser_fields)
  have 2: "is_flag (m_options ?p) (m_args ?p ! 0)"
    by (simp add: demo_parser_fields is_flag_iff demo_options_def)
  have 3: "parse_flag (m_options ?p) (m_args ?p ! 0) (length (flag_prefix (m_options ?p)))
             = Some (6, True)"
    by (simp add: demo_parser_fields demo_options_def parse_flag_def
        parse_flag_loop.simps parse_flag_inner.simps)
  have 4: "get ?p (substr (m_args ?p ! 0) (length (flag_prefix (m_options ?p)))
             (6 - length (flag_prefix (m_options ?p)))) = Some 0"
    by (simp add: demo_parser_fields demo_options_def substr_def demo_parser_get)
  have 5: "0 < length (m_flags ?p)" by (simp add: demo_parser_fields demo_flags_def)
  have 6: "type (m_flags ?p ! 0) \<noteq> Bool"
    by (simp add: demo_parser_fields demo_flags_def flag_name_def)
  have 7: "\<not> (True \<and> 6 + 1 < length (m_args ?p ! 0))" by (simp add: demo_parser_fields)
  have 8: "\<not> 0 + 1 < length (m_args ?p)" by (simp add: demo_parser_fields)
  have "parse_loop ?p 0 =
      Some (\<lparr>ok = False,
             flag_id = substr (m_args ?p ! 0) (length (flag_prefix (m_options ?p)))
                         (6 - length (flag_prefix (m_options ?p))),
             error = ''could not set flag value''\<rparr>, ?p)"
    by (rule parse_loop_no_value [OF 1 2 3 4 5 6 7 8])
  then show ?thesis
    by (simp add: parse_def demo_parser_fields demo_options_def substr_def)
qed

text \<open>
  C1, amended. For a String-kind flag, a single-character separator and a token made
  of the prefix, the flag name and a trailing separator with nothing after it, the
  inline value counts as absent, as if no separator had been found: when a next token
  exists, that whole token becomes the flag's value, the flag is triggered and the
  loop goes on two indices further; when there is none, \<open>parse\<close> returns
  \<open>ok = false\<close> with the flag name as \<open>flag_id\<close> and the error
  \<open>could not set flag value\<close>, and the flag is left as it was.
\<close>

theorem trailing_separator_is_no_value:
  assumes "a < length (m_args p)"
    and "separator (m_options p) = [c]"
    and "c \<notin> set nm"
    and "flag_prefix (m_options p) @ nm \<noteq> []"
    and "m_args p ! a = flag_prefix (m_options p) @ nm @ [c]"
    and "get p nm = Some flag"
    and "flag < length (m_flags p)"
    and "type (m_flags p ! flag) = String"
  shows "parse_loop p a =
           (if a + 1 < length (m_args p) then
              parse_loop
                (p\<lparr>m_flags := (m_flags p)
                     [flag := (m_flags p ! flag)
                        \<lparr>data := DString (m_args p ! (a + 1)), triggered := True\<rparr>]\<rparr>)
                (a + 2)
            else
              Some (\<lparr>ok = False, flag_id = nm, error = ''could not set flag value''\<rparr>, p))"
proof -
  let ?pre = "flag_prefix (m_options p)"
  let ?arg = "m_args p ! a"
  have isf: "is_flag (m_options p) ?arg"
    by (simp add: is_flag_iff assms(5))
  have pf: "parse_flag (m_options p) ?arg (length ?pre) = Some (length ?pre + length nm, True)"
    using parse_flag_single_found [OF assms(3,4), of "[]"]
    by (simp add: parse_flag_def assms(2,5))
  have cand: "substr ?arg (length ?pre) (length ?pre + length nm - length ?pre) = nm"
    by (simp add: substr_def assms(5))
  with assms(6) have g: "get p (substr ?arg (length ?pre) (length ?pre + length nm - length ?pre))
      = Some flag" by simp
  have cand': "substr ?arg (length ?pre) (length nm) = nm"
    by (simp add: substr_def assms(5))
  from assms(8) have nb: "type (m_flags p ! flag) \<noteq> Bool" by simp
  have noinl: "\<not> (True \<and> length ?pre + length nm + 1 < length ?arg)"
    by (simp add: assms(5))
  show ?thesis
  proof (cases "a + 1 < length (m_args p)")
    case True
    from parse_loop_lookahead [OF assms(1) isf pf g assms(7) nb noinl True] True assms(8)
    show ?thesis by (simp add: Let_def set_value_String cand')
  next
    case False
    from parse_loop_no_value [OF assms(1) isf pf g assms(7) nb noinl False] False
    show ?thesis by (simp add: cand')
  qed
qed

theorem trailing_separator_is_no_value_witness:
  "parse (demo_parser [''--name='', ''x''] ''='' True) =
     Some (\<lparr>ok = True, flag_id = [], error = []\<rparr>,
           (demo_parser [''--name='', ''x''] ''='' True)
             \<lparr>m_flags := [flag_name\<lparr>data := DString ''x'', triggered := True\<rparr>,
                          flag_num, flag_verbose]\<rparr>)"
proof -
  let ?p = "demo_parser [''--name='', ''x''] ''='' True"
  let ?p1 = "?p\<lparr>m_flags := (m_flags ?p)
                [0 := (m_flags ?p ! 0)\<lparr>data := DString (m_args ?p ! (0 + 1)), triggered := True\<rparr>]\<rparr>"
  have 1: "0 < length (m_args ?p)" by (simp add: demo_parser_fields)
  have 2: "separator (m_options ?p) = [CHR ''='']" by (simp add: demo_parser_fields demo_options_def)
  have 3: "CHR ''='' \<notin> set ''name''" by simp
  have 4: "flag_prefix (m_options ?p) @ ''name'' \<noteq> []" by simp
  have 5: "m_args ?p ! 0 = flag_prefix (m_options ?p) @ ''name'' @ [CHR ''='']"
    by (simp add: demo_parser_fields demo_options_def)
  have 6: "get ?p ''name'' = Some 0" by (simp add: demo_parser_get)
  have 7: "0 < length (m_flags ?p)" by (simp add: demo_parser_fields demo_flags_def)
  have 8: "type (m_flags ?p ! 0) = String"
    by (simp add: demo_parser_fields demo_flags_def flag_name_def)
  have 9: "0 + 1 < length (m_args ?p)" by (simp add: demo_parser_fields)
  from trailing_separator_is_no_value [OF 1 2 3 4 5 6 7 8] 9
  have "parse_loop ?p 0 = parse_loop ?p1 (0 + 2)" by (simp only: if_True)
  also have "\<dots> = Some (\<lparr>ok = True, flag_id = [], error = []\<rparr>, ?p1)"
    by (rule parse_loop_done) (simp add: demo_parser_fields)
  finally show ?thesis
    by (simp add: parse_def demo_parser_fields demo_flags_def)
qed

text \<open>
  C8, as the claim states it, fails: in \<open>--name hello\<close> the token \<open>hello\<close> is not
  flag-shaped, yet it is consumed as the value of \<open>name\<close> and the positional list
  stays empty.
\<close>

theorem positional_list_counterexample:
  "\<not> is_flag (demo_options ''='' True) ''hello''
   \<and> parse (demo_parser [''--name'', ''hello''] ''='' True) =
       Some (\<lparr>ok = True, flag_id = [], error = []\<rparr>,
             (demo_parser [''--name'', ''hello''] ''='' True)
               \<lparr>m_flags := [flag_name\<lparr>data := DString ''hello'', triggered := True\<rparr>,
                            flag_num, flag_verbose]\<rparr>)
   \<and> m_flagless
       ((demo_parser [''--name'', ''hello''] ''='' True)
          \<lparr>m_flags := [flag_name\<lparr>data := DString ''hello'', triggered := True\<rparr>,
                       flag_num, flag_verbose]\<rparr>) = []"
proof -
  let ?p = "demo_parser [''--name'', ''hello''] ''='' True"
  let ?p1 = "?p\<lparr>m_flags := (m_flags ?p)[0 := snd (set_value (m_args ?p ! (0 + 1)) (m_flags ?p ! 0))]\<rparr>"
  have 1: "0 < length (m_args ?p)" by (simp add: demo_parser_fields)
  have 2: "is_flag (m_options ?p) (m_args ?p ! 0)"
    by (simp add: demo_parser_fields is_flag_iff demo_options_def)
  have 3: "parse_flag (m_options ?p) (m_args ?p ! 0) (length (flag_prefix (m_options ?p)))
             = Some (6, False)"
    by (simp add: demo_parser_fields demo_options_def parse_flag_def
        parse_flag_loop.simps parse_flag_inner.simps)
  have 4: "get ?p (substr (m_args ?p ! 0) (length (flag_prefix (m_options ?p)))
             (6 - length (flag_prefix (m_options ?p)))) = Some 0"
    by (simp add: demo_parser_fields demo_options_def substr_def demo_parser_get)
  have 5: "0 < length (m_flags ?p)" by (simp add: demo_parser_fields demo_flags_def)
  have 6: "type (m_flags ?p ! 0) \<noteq> Bool"
    by (simp add: demo_parser_fields demo_flags_def flag_name_def)
  have 7: "\<not> (False \<and> 6 + 1 < length (m_args ?p ! 0))" by simp
  have 8: "0 + 1 < length (m_args ?p)" by (simp add: demo_parser_fields)
  have sv': "set_value ''hello'' flag_name =
              (True, flag_name\<lparr>data := DString ''hello'', triggered := True\<rparr>)"
    by (simp add: set_value_String flag_name_def)
  then have sv: "set_value (m_args ?p ! (0 + 1)) (m_flags ?p ! 0) =
              (True, flag_name\<lparr>data := DString ''hello'', triggered := True\<rparr>)"
    by (simp add: demo_parser_fields demo_flags_def)
  have "parse_loop ?p 0 = parse_loop ?p1 (0 + 2)"
    using parse_loop_lookahead [OF 1 2 3 4 5 6 7 8]
    by (simp only: Let_def sv fst_conv snd_conv not_True_eq_False if_False)
  also have "\<dots> = Some (\<lparr>ok = True, flag_id = [], error = []\<rparr>, ?p1)"
    by (rule parse_loop_done) (simp add: demo_parser_fields)
  finally have "parse ?p = Some (\<lparr>ok = True, flag_id = [], error = []\<rparr>,
      ?p\<lparr>m_flags := [flag_name\<lparr>data := DString ''hello'', triggered := True\<rparr>,
                          flag_num, flag_verbose]\<rparr>)"
    by (simp add: parse_def sv' demo_parser_fields demo_flags_def)
  moreover have "\<not> is_flag (demo_options ''='' True) ''hello''"
    by (simp add: is_flag_iff demo_options_def)
  ultimately show ?thesis by (simp add: demo_parser_fields)
qed

text \<open>
  C8, amended. A token is flag-shaped iff its length exceeds the prefix length and its
  leading characters are those of the prefix (a token as long as the prefix is no flag).
  A token that is not flag-shaped and that the loop reaches as its current token is
  appended to the positional list without any lookup in the registry, and the
  positional list grows by exactly those tokens, in their original order. The token
  consumed as the lookahead value of a non-Boolean flag is not reached, so it is not
  appended. Parsing fails iff the loop ends at a token it reached, and then no token
  after that one is reached or appended. Hence the list grows by a subsequence of the
  tokens that are not flag-shaped; when every registered flag is Boolean and parsing
  succeeds, it grows by all of them.
\<close>

theorem positional_list_holds_reached_tokens:
  "(is_flag (m_options p) s \<longleftrightarrow>
      length (flag_prefix (m_options p)) < length s
      \<and> take (length (flag_prefix (m_options p))) s = flag_prefix (m_options p))
   \<and> (a < length (m_args p) \<and> \<not> is_flag (m_options p) (m_args p ! a) \<longrightarrow>
        parse_loop p a = parse_loop (p\<lparr>m_flagless := m_flagless p @ [m_args p ! a]\<rparr>) (a + 1))
   \<and> (parse_loop p a = Some (r, p') \<longrightarrow>
        m_flagless p' = m_flagless p @ reached_positionals p a)
   \<and> (a < length (m_args p) \<and> is_flag (m_options p) (m_args p ! a)
        \<and> parse_flag (m_options p) (m_args p ! a) (length (flag_prefix (m_options p)))
            = Some (sep_start, found_sep)
        \<and> get p (substr (m_args p ! a) (length (flag_prefix (m_options p)))
                   (sep_start - length (flag_prefix (m_options p)))) = Some flag
        \<and> flag < length (m_flags p) \<and> type (m_flags p ! flag) \<noteq> Bool
        \<and> \<not> (found_sep \<and> sep_start + 1 < length (m_args p ! a))
        \<and> a + 1 < length (m_args p) \<longrightarrow>
        a + 1 \<notin> set (reached p a))
   \<and> (parse_loop p a = Some (r, p') \<longrightarrow>
        (\<not> ok r \<longleftrightarrow> (\<exists>b \<in> set (reached p a). next_index p b = None)))
   \<and> (b \<in> set (reached p a) \<and> next_index p b = None \<longrightarrow>
        (\<forall>i \<in> set (reached p a). i \<le> b))
   \<and> (parse_loop p a = Some (r, p') \<longrightarrow>
        (\<exists>ps. m_flagless p' = m_flagless p @ ps
           \<and> subseq ps (filter (\<lambda>s. \<not> is_flag (m_options p) s) (drop a (m_args p)))))
   \<and> (parse_loop p a = Some (r, p') \<and> ok r \<and> (\<forall>f \<in> set (m_flags p). type f = Bool) \<longrightarrow>
        m_flagless p' =
          m_flagless p @ filter (\<lambda>s. \<not> is_flag (m_options p) s) (drop a (m_args p)))"
proof (intro conjI impI)
  show "is_flag (m_options p) s \<longleftrightarrow>
      length (flag_prefix (m_options p)) < length s
      \<and> take (length (flag_prefix (m_options p))) s = flag_prefix (m_options p)"
    by (rule is_flag_iff)
next
  assume "a < length (m_args p) \<and> \<not> is_flag (m_options p) (m_args p ! a)"
  then show "parse_loop p a = parse_loop (p\<lparr>m_flagless := m_flagless p @ [m_args p ! a]\<rparr>) (a + 1)"
    using parse_loop_positional [of a p] by blast
next
  assume "parse_loop p a = Some (r, p')"
  then show "m_flagless p' = m_flagless p @ reached_positionals p a"
    using parse_loop_reached [of p a r p'] by blast
next
  assume "a < length (m_args p) \<and> is_flag (m_options p) (m_args p ! a)
        \<and> parse_flag (m_options p) (m_args p ! a) (length (flag_prefix (m_options p)))
            = Some (sep_start, found_sep)
        \<and> get p (substr (m_args p ! a) (length (flag_prefix (m_options p)))
                   (sep_start - length (flag_prefix (m_options p)))) = Some flag
        \<and> flag < length (m_flags p) \<and> type (m_flags p ! flag) \<noteq> Bool
        \<and> \<not> (found_sep \<and> sep_start + 1 < length (m_args p ! a))
        \<and> a + 1 < length (m_args p)"
  then show "a + 1 \<notin> set (reached p a)"
    using reached_skips_lookahead [of a p sep_start found_sep flag] by blast
next
  assume "parse_loop p a = Some (r, p')"
  then show "\<not> ok r \<longleftrightarrow> (\<exists>b \<in> set (reached p a). next_index p b = None)"
    using parse_loop_reached [of p a r p'] by auto
next
  assume "b \<in> set (reached p a) \<and> next_index p b = None"
  then show "\<forall>i \<in> set (reached p a). i \<le> b"
    using reached_stops [of b p a] by blast
next
  assume "parse_loop p a = Some (r, p')"
  then show "\<exists>ps. m_flagless p' = m_flagless p @ ps
           \<and> subseq ps (filter (\<lambda>s. \<not> is_flag (m_options p) s) (drop a (m_args p)))"
    by (rule parse_loop_flagless_subseq)
next
  assume "parse_loop p a = Some (r, p') \<and> ok r \<and> (\<forall>f \<in> set (m_flags p). type f = Bool)"
  then show "m_flagless p' =
          m_flagless p @ filter (\<lambda>s. \<not> is_flag (m_options p) s) (drop a (m_args p))"
    using parse_loop_flagless_exact [of p a r p'] by blast
qed

theorem positional_list_holds_reached_tokens_witness:
  "parse_loop (demo_parser [''--name'', ''hello'', ''x'', ''--bogus'', ''y''] ''='' True) 0 =
     Some (\<lparr>ok = False, flag_id = ''bogus'', error = ''invalid flag id used''\<rparr>,
           (demo_parser [''--name'', ''hello'', ''x'', ''--bogus'', ''y''] ''='' True)\<lparr>m_flags := [flag_name\<lparr>data := DString ''hello'', triggered := True\<rparr>,
                             flag_num, flag_verbose],
                 m_flagless := [''x'']\<rparr>)
   \<and> reached_positionals (demo_parser [''--name'', ''hello'', ''x'', ''--bogus'', ''y''] ''='' True) 0 = [''x'']
   \<and> 1 \<notin> set (reached (demo_parser [''--name'', ''hello'', ''x'', ''--bogus'', ''y''] ''='' True) 0)
   \<and> 4 \<notin> set (reached (demo_parser [''--name'', ''hello'', ''x'', ''--bogus'', ''y''] ''='' True) 0)
   \<and> parse_loop (switch_parser [''a'', ''--verbose'', ''b'']) 0 =
     Some (\<lparr>ok = True, flag_id = [], error = []\<rparr>,
           (switch_parser [''a'', ''--verbose'', ''b''])\<lparr>m_flags := [flag_verbose\<lparr>data := DBool True, triggered := True\<rparr>],
                 m_flagless := [''a'', ''b'']\<rparr>)
   \<and> filter (\<lambda>s. \<not> is_flag (demo_options ''='' True) s) [''a'', ''--verbose'', ''b'']
     = [''a'', ''b'']"
proof -
  let ?d = "(demo_parser [''--name'', ''hello'', ''x'', ''--bogus'', ''y''] ''='' True)"
  let ?d' = "?d\<lparr>m_flags := [flag_name\<lparr>data := DString ''hello'', triggered := True\<rparr>,
                             flag_num, flag_verbose],
                 m_flagless := [''x'']\<rparr>"
  let ?rd = "\<lparr>ok = False, flag_id = ''bogus'', error = ''invalid flag id used''\<rparr>"
  let ?s = "(switch_parser [''a'', ''--verbose'', ''b''])"
  let ?s' = "?s\<lparr>m_flags := [flag_verbose\<lparr>data := DBool True, triggered := True\<rparr>],
                 m_flagless := [''a'', ''b'']\<rparr>"
  let ?rs = "\<lparr>ok = True, flag_id = [], error = []\<rparr>"
  note D = positional_list_holds_reached_tokens
    [where p = ?d and a = 0 and r = ?rd and p' = ?d' and sep_start = 6 and found_sep = False
       and flag = 0 and b = 3 and s = "''hello''"]
  note S = positional_list_holds_reached_tokens
    [where p = ?s and a = 0 and r = ?rs and p' = ?s' and s = "''a''"]
  have run_d: "parse_loop ?d 0 = Some (?rd, ?d')" by (rule demo_run_result)
  have run_s: "parse_loop ?s 0 = Some (?rs, ?s')" by (rule switch_run_result)
  from D run_d have "m_flagless ?d' = m_flagless ?d @ reached_positionals ?d 0" by blast
  then have pos: "reached_positionals ?d 0 = [''x'']" by (simp add: demo_parser_fields)
  have look: "0 < length (m_args ?d) \<and> is_flag (m_options ?d) (m_args ?d ! 0)
        \<and> parse_flag (m_options ?d) (m_args ?d ! 0) (length (flag_prefix (m_options ?d)))
            = Some (6, False)
        \<and> get ?d (substr (m_args ?d ! 0) (length (flag_prefix (m_options ?d)))
                   (6 - length (flag_prefix (m_options ?d)))) = Some 0
        \<and> 0 < length (m_flags ?d) \<and> type (m_flags ?d ! 0) \<noteq> Bool
        \<and> \<not> (False \<and> 6 + 1 < length (m_args ?d ! 0))
        \<and> 0 + 1 < length (m_args ?d)"
    by (simp add: demo_parser_fields demo_parser_get demo_options_def is_flag_iff parse_flag_def
        parse_flag_loop.simps parse_flag_inner.simps substr_def demo_flags_def flag_name_def)
  with D have "0 + 1 \<notin> set (reached ?d 0)" by blast
  then have skip: "1 \<notin> set (reached ?d 0)" by simp
  have stop: "3 \<in> set (reached ?d 0) \<and> next_index ?d 3 = None"
    by (simp add: demo_run_reached demo_run_next_index)
  with D have "\<forall>i \<in> set (reached ?d 0). i \<le> 3" by blast
  then have last: "4 \<notin> set (reached ?d 0)" by auto
  from D run_d stop have "\<not> ok ?rd" by blast
  have "parse_loop ?s 0 = Some (?rs, ?s') \<and> ok ?rs \<and> (\<forall>f \<in> set (m_flags ?s). type f = Bool)"
    using run_s by (simp add: switch_parser_fields flag_verbose_def)
  with S have "m_flagless ?s' =
      m_flagless ?s @ filter (\<lambda>s. \<not> is_flag (m_options ?s) s) (drop 0 (m_args ?s))"
    by blast
  then have all: "filter (\<lambda>s. \<not> is_flag (demo_options ''='' True) s) [''a'', ''--verbose'', ''b'']
      = [''a'', ''b'']"
    by (simp add: switch_parser_fields)
  from run_d pos skip last run_s all show ?thesis by blast
qed

text \<open>
  C3. The claim asks that a multi-character separator match in full and that the
  position just after it be reported. The inner loop of \<open>parse_flag\<close> starts its
  separator index at the token index (\<open>j = i\<close>), so with prefix \<open>--\<close> and separator
  \<open>::\<close> it compares nothing: in \<open>--name:x\<close>, where \<open>::\<close> does not occur, a
  separator is reported at index 6 and \<open>name\<close> receives the value \<open>x\<close>; in
  \<open>--name::x\<close> the value starts one character after the start of the separator and
  is \<open>:x\<close>.
\<close>

theorem multi_character_separator_not_matched:
  "parse_flag (demo_options ''::'' True) ''--name:x'' 2 = Some (6, True)
   \<and> parse (demo_parser [''--name:x''] ''::'' True) =
       Some (\<lparr>ok = True, flag_id = [], error = []\<rparr>,
             (demo_parser [''--name:x''] ''::'' True)
               \<lparr>m_flags := [flag_name\<lparr>data := DString ''x'', triggered := True\<rparr>,
                            flag_num, flag_verbose]\<rparr>)
   \<and> parse (demo_parser [''--name::x''] ''::'' True) =
       Some (\<lparr>ok = True, flag_id = [], error = []\<rparr>,
             (demo_parser [''--name::x''] ''::'' True)
               \<lparr>m_flags := [flag_name\<lparr>data := DString '':x'', triggered := True\<rparr>,
                            flag_num, flag_verbose]\<rparr>)"
proof -
  let ?p = "demo_parser [''--name:x''] ''::'' True"
  let ?q = "demo_parser [''--name::x''] ''::'' True"
  let ?r = "\<lparr>ok = True, flag_id = [], error = []\<rparr>"
  have tok: "parse_flag (demo_options ''::'' True) ''--name:x'' 2 = Some (6, True)"
    by (simp add: demo_options_def parse_flag_def parse_flag_loop.simps parse_flag_inner.simps)
  have p1: "0 < length (m_args ?p)" by (simp add: demo_parser_fields)
  have p2: "is_flag (m_options ?p) (m_args ?p ! 0)"
    by (simp add: demo_parser_fields is_flag_iff demo_options_def)
  have p3: "parse_flag (m_options ?p) (m_args ?p ! 0) (length (flag_prefix (m_options ?p)))
              = Some (6, True)"
    by (simp add: demo_parser_fields demo_options_def parse_flag_def
        parse_flag_loop.simps parse_flag_inner.simps)
  have p4: "get ?p (substr (m_args ?p ! 0) (length (flag_prefix (m_options ?p)))
              (6 - length (flag_prefix (m_options ?p)))) = Some 0"
    by (simp add: demo_parser_fields demo_options_def substr_def demo_parser_get)
  have p5: "0 < length (m_flags ?p)" by (simp add: demo_parser_fields demo_flags_def)
  have p6: "type (m_flags ?p ! 0) \<noteq> Bool"
    by (simp add: demo_parser_fields demo_flags_def flag_name_def)
  have p7: "6 + 1 < length (m_args ?p ! 0)" by (simp add: demo_parser_fields)
  have psv': "set_value ''x'' flag_name =
      (True, flag_name\<lparr>data := DString ''x'', triggered := True\<rparr>)"
    by (simp add: set_value_String flag_name_def)
  then have psv: "set_value (drop (6 + 1) (m_args ?p ! 0)) (m_flags ?p ! 0) =
      (True, flag_name\<lparr>data := DString ''x'', triggered := True\<rparr>)"
    by (simp add: demo_parser_fields demo_flags_def)
  let ?p1 = "?p\<lparr>m_flags := (m_flags ?p)
      [0 := snd (set_value (drop (6 + 1) (m_args ?p ! 0)) (m_flags ?p ! 0))]\<rparr>"
  have "parse_loop ?p 0 = parse_loop ?p1 (0 + 1)"
    using parse_loop_inline [OF p1 p2 p3 p4 p5 p6 TrueI p7]
    by (simp only: Let_def psv fst_conv snd_conv not_True_eq_False if_False)
  also have "\<dots> = Some (?r, ?p1)"
    by (rule parse_loop_done) (simp add: demo_parser_fields)
  finally have first: "parse ?p = Some (?r,
      ?p\<lparr>m_flags := [flag_name\<lparr>data := DString ''x'', triggered := True\<rparr>,
                     flag_num, flag_verbose]\<rparr>)"
    by (simp add: parse_def psv' demo_parser_fields demo_flags_def)
  have q1: "0 < length (m_args ?q)" by (simp add: demo_parser_fields)
  have q2: "is_flag (m_options ?q) (m_args ?q ! 0)"
    by (simp add: demo_parser_fields is_flag_iff demo_options_def)
  have q3: "parse_flag (m_options ?q) (m_args ?q ! 0) (length (flag_prefix (m_options ?q)))
              = Some (6, True)"
    by (simp add: demo_parser_fields demo_options_def parse_flag_def
        parse_flag_loop.simps parse_flag_inner.simps)
  have q4: "get ?q (substr (m_args ?q ! 0) (length (flag_prefix (m_options ?q)))
              (6 - length (flag_prefix (m_options ?q)))) = Some 0"
    by (simp add: demo_parser_fields demo_options_def substr_def demo_parser_get)
  have q5: "0 < length (m_flags ?q)" by (simp add: demo_parser_fields demo_flags_def)
  have q6: "type (m_flags ?q ! 0) \<noteq> Bool"
    by (simp add: demo_parser_fields demo_flags_def flag_name_def)
  have q7: "6 + 1 < length (m_args ?q ! 0)" by (simp add: demo_parser_fields)
  have qsv': "set_value '':x'' flag_name =
      (True, flag_name\<lparr>data := DString '':x'', triggered := True\<rparr>)"
    by (simp add: set_value_String flag_name_def)
  then have qsv: "set_value (drop (6 + 1) (m_args ?q ! 0)) (m_flags ?q ! 0) =
      (True, flag_name\<lparr>data := DString '':x'', triggered := True\<rparr>)"
    by (simp add: demo_parser_fields demo_flags_def)
  let ?q1 = "?q\<lparr>m_flags := (m_flags ?q)
      [0 := snd (set_value (drop (6 + 1) (m_args ?q ! 0)) (m_flags ?q ! 0))]\<rparr>"
  have "parse_loop ?q 0 = parse_loop ?q1 (0 + 1)"
    using parse_loop_inline [OF q1 q2 q3 q4 q5 q6 TrueI q7]
    by (simp only: Let_def qsv fst_conv snd_conv not_True_eq_False if_False)
  also have "\<dots> = Some (?r, ?q1)"
    by (rule parse_loop_done) (simp add: demo_parser_fields)
  finally have second: "parse ?q = Some (?r,
      ?q\<lparr>m_flags := [flag_name\<lparr>data := DString '':x'', triggered := True\<rparr>,
                     flag_num, flag_verbose]\<rparr>)"
    by (simp add: parse_def qsv' demo_parser_fields demo_flags_def)
  from tok first second show ?thesis by blast
qed

end
